theory Spec2Isabelle
  imports Main "HOL-Library.Sublist" "HOL-Library.Word"
begin

section \<open>The libretro core adapter of \<open>core.h\<close>\<close>

text \<open>
  A shallow embedding of the declarations and inline member functions of \<open>core.h\<close>:
  the symbol table \<open>LibretroSymbols\<close>, the enumerations \<open>Core::State\<close> and
  \<open>Core::Error\<close>, and the container class \<open>Core::Variable\<close>. The member
  functions of \<open>Core\<close> that the header only declares are modelled in the later
  sections from the design document, and are marked as such.
\<close>

subsection \<open>Qt's strings and their UTF-8 codec\<close>

text \<open>
  A \<open>std::string\<close> and a C string are lists of bytes (\<open>string\<close>); a \<open>QString\<close>
  is the list of its UTF-16 code units. \<open>Core::Variable\<close> goes from the one to the
  other with \<open>QString( const char * )\<close>, which decodes UTF-8, and back with
  \<open>toStdString()\<close>, which encodes UTF-8. Both are library code of Qt 5 and not part of
  \<open>core.h\<close>; they are written here as Qt implements them from version 5.3 on
  (\<open>QUtf8::convertToUnicode\<close>, \<open>QUtf8::convertFromUnicode\<close> and the two functions of
  \<open>QUtf8Functions\<close>), with the arithmetic of the C++ on natural numbers: \<open>x & 0x3f\<close> is
  \<open>x mod 64\<close>, \<open>x >> 6\<close> is \<open>x div 64\<close>, and \<open>a | b\<close> is \<open>a + b\<close> where the operands
  share no bit.
\<close>

type_synonym QChar = "16 word"

type_synonym QString = "16 word list"

text \<open>\<open>isContinuationByte( b )\<close> is \<open>(b & 0xc0) == 0x80\<close>.\<close>

definition isContinuationByte :: "nat \<Rightarrow> bool" where
  "isContinuationByte b = (b div 64 = 2)"

text \<open>\<open>QChar::isSurrogate\<close>, \<open>QChar::isHighSurrogate\<close> and \<open>QChar::isLowSurrogate\<close>.\<close>

definition isSurrogate :: "nat \<Rightarrow> bool" where
  "isSurrogate ucs4 = (0xD800 \<le> ucs4 \<and> ucs4 < 0xE000)"

definition isHighSurrogate :: "nat \<Rightarrow> bool" where
  "isHighSurrogate ucs4 = (0xD800 \<le> ucs4 \<and> ucs4 < 0xDC00)"

definition isLowSurrogate :: "nat \<Rightarrow> bool" where
  "isLowSurrogate ucs4 = (0xDC00 \<le> ucs4 \<and> ucs4 < 0xE000)"

text \<open>
  \<open>QUtf8Functions::fromUtf8( b, dst, src, end )\<close>: decodes the character whose first
  byte is \<open>b\<close>, reading its continuation bytes from \<open>src\<close>. The result is the code units
  it appends and the number of continuation bytes it consumed, or \<open>None\<close> where the C++
  returns one of its two negative values (\<open>Error\<close>, \<open>EndOfString\<close>): a byte that cannot
  start a character, a missing or wrong continuation byte, an overlong form, an encoded
  surrogate, a value above \<open>U+10FFFF\<close>. A character from \<open>U+10000\<close> on is appended as
  its pair of surrogates.
\<close>

definition fromUtf8_char :: "nat \<Rightarrow> nat list \<Rightarrow> (QString \<times> nat) option" where
  "fromUtf8_char b src =
     (if b < 0x80 then Some ([of_nat b], 0)
      else if b \<le> 0xC1 then None
      else if 0xF5 \<le> b then None
      else
        (let charsNeeded = (if b < 0xE0 then 2 else if b < 0xF0 then 3 else 4 :: nat);
             min_uc = (if b < 0xE0 then 0x80 else if b < 0xF0 then 0x800 else 0x10000 :: nat);
             uc0 = (if b < 0xE0 then b mod 32 else if b < 0xF0 then b mod 16 else b mod 8)
         in if length src < charsNeeded - 1 then None
            else if \<not> list_all isContinuationByte (take (charsNeeded - 1) src) then None
            else
              (let uc = foldl (\<lambda>uc b. uc * 64 + b mod 64) uc0 (take (charsNeeded - 1) src)
               in if uc < min_uc then None
                  else if isSurrogate uc \<or> 0x10FFFF < uc then None
                  else if uc < 0x10000 then Some ([of_nat uc], charsNeeded - 1)
                  else Some ([of_nat (uc div 1024 + 0xD7C0), of_nat (uc mod 1024 + 0xDC00)],
                             charsNeeded - 1))))"

text \<open>
  The loop of \<open>QUtf8::convertToUnicode\<close>: a character that does not decode becomes the
  replacement character \<open>U+FFFD\<close>, and decoding goes on at the next byte.
\<close>

fun decode_from :: "string \<Rightarrow> QString" where
  "decode_from [] = []"
| "decode_from (c # cs) =
     (case fromUtf8_char (of_char c) (map of_char cs) of
        None \<Rightarrow> 0xFFFD # decode_from cs
      | Some (units, n) \<Rightarrow> units @ decode_from (drop n cs))"

text \<open>\<open>QUtf8::convertToUnicode\<close>: a byte order mark at the very start is skipped.\<close>

definition convertToUnicode :: "string \<Rightarrow> QString" where
  "convertToUnicode chars =
     decode_from (if take 3 chars = [CHR 0xEF, CHR 0xBB, CHR 0xBF] then drop 3 chars else chars)"

text \<open>
  \<open>QUtf8Functions::toUtf8( u, dst, src, end )\<close>: encodes the character whose first code
  unit is \<open>u\<close>, reading the low surrogate of a pair from \<open>src\<close>. The result is the bytes
  it appends and the number of further code units it consumed, or \<open>None\<close> where the C++
  returns a negative value: a surrogate that is not the high half of a pair.
\<close>

definition toUtf8_char :: "nat \<Rightarrow> nat list \<Rightarrow> (string \<times> nat) option" where
  "toUtf8_char u src =
     (if u < 0x80 then Some ([char_of u], 0)
      else if u < 0x800 then Some ([char_of (0xC0 + u div 64), char_of (0x80 + u mod 64)], 0)
      else if \<not> isSurrogate u
      then Some ([char_of (0xE0 + u div 4096), char_of (0x80 + u div 64 mod 64),
                  char_of (0x80 + u mod 64)], 0)
      else
        (case src of
           [] \<Rightarrow> None
         | low # _ \<Rightarrow>
             if \<not> isHighSurrogate u then None
             else if \<not> isLowSurrogate low then None
             else
               (let ucs4 = u * 1024 + low - 0x35FDC00;
                    u' = ucs4 mod 65536
                in Some ([char_of (0xF0 + ucs4 div 262144 mod 16),
                          char_of (0x80 + ucs4 div 4096 mod 64),
                          char_of (0x80 + u' div 64 mod 64),
                          char_of (0x80 + u' mod 64)], 1))))"

text \<open>
  \<open>QUtf8::convertFromUnicode\<close>: a character that does not encode becomes \<open>?\<close>, and
  encoding goes on at the next code unit.
\<close>

fun convertFromUnicode :: "QString \<Rightarrow> string" where
  "convertFromUnicode [] = []"
| "convertFromUnicode (u # us) =
     (case toUtf8_char (unat u) (map unat us) of
        None \<Rightarrow> CHR ''?'' # convertFromUnicode us
      | Some (bytes, n) \<Rightarrow> bytes @ convertFromUnicode (drop n us))"

text \<open>
  \<open>QString( const char * )\<close>: the null string, which behaves as the empty string in
  every operation used here, for a null pointer; the decoded C string otherwise.
  \<open>QString::toStdString()\<close> encodes. \<open>QChar( char )\<close> is the code unit of a Latin-1
  character.
\<close>

definition QString_of :: "string option \<Rightarrow> QString" where
  "QString_of p = (case p of None \<Rightarrow> [] | Some s \<Rightarrow> convertToUnicode s)"

definition toStdString :: "QString \<Rightarrow> string" where
  "toStdString q = convertFromUnicode q"

definition QChar_of :: "char \<Rightarrow> QChar" where
  "QChar_of c = of_nat (of_char c)"

text \<open>
  \<open>QString::indexOf( str )\<close>: the index of the first occurrence of \<open>str\<close>,
  searching forward from index 0, or \<open>-1\<close> when there is none.
\<close>

fun indexOf_from :: "'a list \<Rightarrow> nat \<Rightarrow> 'a list \<Rightarrow> int" where
  "indexOf_from sep i [] = (if sep = [] then int i else - 1)"
| "indexOf_from sep i (c # cs) =
     (if prefix sep (c # cs) then int i else indexOf_from sep (Suc i) cs)"

definition indexOf :: "'a list \<Rightarrow> 'a list \<Rightarrow> int" where
  "indexOf s sep = indexOf_from sep 0 s"

text \<open>
  \<open>QString::mid( position, n )\<close>: the \<open>n\<close> characters from \<open>position\<close> on; all
  the characters from \<open>position\<close> on when \<open>n\<close> is \<open>-1\<close> (the default) or exceeds what
  is left; the null string when \<open>position\<close> exceeds the length. A negative
  \<open>position\<close> shortens \<open>n\<close> and starts at 0.
\<close>

definition mid :: "'a list \<Rightarrow> int \<Rightarrow> int \<Rightarrow> 'a list" where
  "mid s position n =
     (if position > int (length s) then []
      else if position < 0 then
        (if n < 0 \<or> n + position \<ge> int (length s) then s
         else if n + position \<le> 0 then []
         else take (nat (n + position)) s)
      else if n < 0 then drop (nat position) s
      else take (nat n) (drop (nat position) s))"

text \<open>
  \<open>QString::split( sep )\<close> with the default \<open>KeepEmptyParts\<close>: the pieces between
  the occurrences of \<open>sep\<close>, in order, empty pieces included; the split of the empty
  string is the list of one empty string.
\<close>

fun split_on :: "'a \<Rightarrow> 'a list \<Rightarrow> 'a list list" where
  "split_on sep [] = [[]]"
| "split_on sep (c # cs) =
     (if c = sep then [] # split_on sep cs
      else (case split_on sep cs of
              [] \<Rightarrow> [[c]]
            | p # ps \<Rightarrow> (c # p) # ps))"

subsection \<open>\<open>Core::Variable\<close>\<close>

text \<open>
  \<open>struct retro_variable { const char *key; const char *value; }\<close> of \<open>libretro.h\<close>:
  each pointer is null (\<open>None\<close>) or points to a C string.
\<close>

record retro_variable =
  var_key :: "string option"
  var_value :: "string option"

record Variable =
  m_key :: string
  m_value :: string
  m_description :: string
  m_choices :: "string list"

text \<open>\<open>Variable() {}\<close>: every member is default-constructed, hence empty.\<close>

definition Variable_default :: Variable where
  "Variable_default = \<lparr>m_key = [], m_value = [], m_description = [], m_choices = []\<rparr>"

text \<open>
  \<open>Variable( const retro_variable *var )\<close>. Assigning a null \<open>var->key\<close> to the
  \<open>std::string\<close> \<open>m_key\<close> is undefined behaviour: the result is \<open>None\<close>. The
  key is copied byte for byte; the descriptor goes through a \<open>QString\<close>, and the
  description and each choice come back through \<open>toStdString()\<close>. The \<open>foreach\<close> loop
  appends the choices one by one.
\<close>

definition Variable_of :: "retro_variable \<Rightarrow> Variable option" where
  "Variable_of var =
     (case var_key var of
        None \<Rightarrow> None
      | Some k \<Rightarrow>
          (let v = Variable_default\<lparr>m_key := k\<rparr>;
               valdesc = QString_of (var_value var);
               splitidx = indexOf valdesc (QString_of (Some ''; ''))
           in if splitidx \<noteq> - 1
              then Some (v\<lparr>m_description := toStdString (mid valdesc 0 splitidx),
                           m_choices := foldl (\<lambda>acc choice. acc @ [toStdString choice])
                              (m_choices v)
                              (split_on (QChar_of CHR ''|'') (mid valdesc (splitidx + 2) (- 1)))\<rparr>)
              else Some v))"

definition key :: "Variable \<Rightarrow> string" where
  "key v = m_key v"

text \<open>
  \<open>value( default_ )\<close> and \<open>value()\<close>, whose static default is the empty string: the
  string that the returned reference designates.
\<close>

definition Variable_value :: "Variable \<Rightarrow> string \<Rightarrow> string" where
  "Variable_value v default_arg = (if m_value v = [] then default_arg else m_value v)"

definition Variable_value0 :: "Variable \<Rightarrow> string" where
  "Variable_value0 v = Variable_value v []"

text \<open>
  The reference itself. The \<open>std::string\<close> objects that are alive are a store from
  addresses to their contents. \<open>value( default_ )\<close> returns the address of
  \<open>this->m_value\<close>, or the address its parameter \<open>default_\<close> is bound to; \<open>value()\<close>
  passes the address of its function-local static.
\<close>

type_synonym address = nat

type_synonym string_objects = "address \<rightharpoonup> string"

definition Variable_value_ref :: "Variable \<Rightarrow> address \<Rightarrow> address \<Rightarrow> address" where
  "Variable_value_ref v this_m_value default_arg =
     (if m_value v = [] then default_arg else this_m_value)"

definition Variable_value0_ref :: "Variable \<Rightarrow> address \<Rightarrow> address \<Rightarrow> address" where
  "Variable_value0_ref v this_m_value static_default =
     Variable_value_ref v this_m_value static_default"

text \<open>
  A caller that passes a temporary, as in
  \<open>const std::string &r = v.value( std::string( d ) )\<close>: the temporary is created at
  \<open>tmp\<close>, \<open>value\<close> is called with the parameter bound to it, and it is destroyed at the
  end of the full-expression. The result is the store after the statement and the
  reference that \<open>r\<close> holds.
\<close>

definition value_of_temporary ::
    "string_objects \<Rightarrow> Variable \<Rightarrow> address \<Rightarrow> address \<Rightarrow> string
      \<Rightarrow> string_objects \<times> address" where
  "value_of_temporary objs v this_m_value tmp d =
     (let objs1 = objs(tmp \<mapsto> d);
          r = Variable_value_ref v this_m_value tmp
      in (objs1(tmp := None), r))"

definition description :: "Variable \<Rightarrow> string" where
  "description v = m_description v"

definition choices :: "Variable \<Rightarrow> string list" where
  "choices v = m_choices v"

definition isValid :: "Variable \<Rightarrow> bool" where
  "isValid v = (m_key v \<noteq> [])"

subsection \<open>\<open>LibretroSymbols\<close>\<close>

text \<open>A function pointer is null or holds the address the library resolved.\<close>

datatype fnptr = nullptr | resolved nat

record LibretroSymbols =
  retro_api_version :: fnptr
  retro_cheat_reset :: fnptr
  retro_cheat_set :: fnptr
  retro_deinit :: fnptr
  retro_get_memory_data :: fnptr
  retro_get_memory_size :: fnptr
  retro_get_region :: fnptr
  retro_get_system_av_info :: fnptr
  retro_get_system_info :: fnptr
  retro_init :: fnptr
  retro_load_game :: fnptr
  retro_load_game_special :: fnptr
  retro_reset :: fnptr
  retro_run :: fnptr
  retro_serialize :: fnptr
  retro_serialize_size :: fnptr
  retro_unload_game :: fnptr
  retro_unserialize :: fnptr
  retro_set_audio_sample :: fnptr
  retro_set_audio_sample_batch :: fnptr
  retro_set_controller_port_device :: fnptr
  retro_set_environment :: fnptr
  retro_set_input_poll :: fnptr
  retro_set_input_state :: fnptr
  retro_set_video_refresh :: fnptr
  retro_audio :: fnptr
  retro_audio_set_state :: fnptr
  retro_frame_time :: fnptr
  retro_keyboard_event :: fnptr

text \<open>\<open>LibretroSymbols::clear()\<close>, one update per assignment, in the source's order.\<close>

definition clear :: "LibretroSymbols \<Rightarrow> LibretroSymbols" where
  "clear s = s
     \<lparr>retro_api_version := nullptr,
      retro_cheat_reset := nullptr,
      retro_cheat_set := nullptr,
      retro_deinit := nullptr,
      retro_init := nullptr,
      retro_get_memory_data := nullptr,
      retro_get_memory_size := nullptr,
      retro_get_region := nullptr,
      retro_get_system_av_info := nullptr,
      retro_get_system_info := nullptr,
      retro_load_game := nullptr,
      retro_load_game_special := nullptr,
      retro_reset := nullptr,
      retro_run := nullptr,
      retro_serialize := nullptr,
      retro_serialize_size := nullptr,
      retro_unload_game := nullptr,
      retro_unserialize := nullptr,
      retro_set_audio_sample := nullptr,
      retro_set_audio_sample_batch := nullptr,
      retro_set_controller_port_device := nullptr,
      retro_set_environment := nullptr,
      retro_set_input_poll := nullptr,
      retro_set_input_state := nullptr,
      retro_set_video_refresh := nullptr,
      retro_audio := nullptr,
      retro_audio_set_state := nullptr,
      retro_frame_time := nullptr,
      retro_keyboard_event := nullptr\<rparr>"

subsection \<open>\<open>Core::State\<close> and \<open>Core::Error\<close>\<close>

datatype State = STATEUNINITIALIZED | STATEREADY | STATEFINISHED | STATEERROR

datatype Error =
    CORENOERROR
  | CORELOAD
  | CORENOTLIBRARY
  | CORENOTFOUND
  | COREACCESSDENIED
  | COREUNKNOWNERROR
  | GAMENOTFOUND
  | GAMEACCESSDENIED
  | GAMEUNKNOWNERROR

text \<open>The enumerators in the order of their declaration, and their \<open>int\<close> values.\<close>

definition Error_enumerators :: "Error list" where
  "Error_enumerators =
     [CORENOERROR, CORELOAD, CORENOTLIBRARY, CORENOTFOUND, COREACCESSDENIED,
      COREUNKNOWNERROR, GAMENOTFOUND, GAMEACCESSDENIED, GAMEUNKNOWNERROR]"

fun Error_int :: "Error \<Rightarrow> int" where
  "Error_int CORENOERROR = 0"
| "Error_int CORELOAD = 1"
| "Error_int CORENOTLIBRARY = 2"
| "Error_int CORENOTFOUND = 3"
| "Error_int COREACCESSDENIED = 4"
| "Error_int COREUNKNOWNERROR = 5"
| "Error_int GAMENOTFOUND = 6"
| "Error_int GAMEACCESSDENIED = 7"
| "Error_int GAMEUNKNOWNERROR = 8"

text \<open>
  What each enumerator stands for, after the comment the source puts on it: which load
  failed (the core's or the game's) and how.
\<close>

datatype family = core_load | content_load

datatype subkind =
    generic_load_failure
  | invalid_library_format
  | not_found
  | access_denied
  | unknown_filesystem_error

fun classify :: "Error \<Rightarrow> (family \<times> subkind) option" where
  "classify CORENOERROR = None"
| "classify CORELOAD = Some (core_load, generic_load_failure)"
| "classify CORENOTLIBRARY = Some (core_load, invalid_library_format)"
| "classify CORENOTFOUND = Some (core_load, not_found)"
| "classify COREACCESSDENIED = Some (core_load, access_denied)"
| "classify COREUNKNOWNERROR = Some (core_load, unknown_filesystem_error)"
| "classify GAMENOTFOUND = Some (content_load, not_found)"
| "classify GAMEACCESSDENIED = Some (content_load, access_denied)"
| "classify GAMEUNKNOWNERROR = Some (content_load, unknown_filesystem_error)"

subsection \<open>The payload of \<open>signalStateChanged\<close>\<close>

text \<open>
  \<open>enum retro_pixel_format\<close> of \<open>libretro.h\<close>; \<open>avInfoStruct\<close>, whose first
  member is a pointer; and the union \<open>stateChangedData\<close>, tagged here with the member
  that was written.
\<close>

datatype retro_pixel_format =
    RETRO_PIXEL_FORMAT_0RGB1555
  | RETRO_PIXEL_FORMAT_XRGB8888
  | RETRO_PIXEL_FORMAT_RGB565
  | RETRO_PIXEL_FORMAT_UNKNOWN

record avInfoStruct =
  avInfo :: nat
  pixelFormat :: retro_pixel_format

datatype stateChangedData = Data_error Error | Data_avInfo avInfoStruct

section \<open>The member functions that \<open>core.h\<close> only declares\<close>

subsection \<open>The state machine\<close>

text \<open>
  Modelled from the spec: the state that \<open>slotLoadCore\<close>, \<open>slotLoadGame\<close> and
  \<open>slotDoFrame\<close> keep is not in \<open>core.h\<close>, which declares \<open>avInfo\<close> and
  \<open>pixelFormat\<close> only. It is the adapter state of section 3 of the design document,
  with the negotiated AV info and the error of the last failure.
\<close>

record Core_lifecycle =
  Core_state :: State
  Core_avInfo :: nat
  Core_pixelFormat :: retro_pixel_format
  Core_error :: Error

text \<open>
  A notification is the arguments of \<open>signalStateChanged\<close>, with \<open>None\<close> for a
  payload that carries nothing.
\<close>

type_synonym notification = "State \<times> stateChangedData option"

text \<open>
  Modelled from the spec: what makes the adapter change state, after section 4.2 of the
  design document. The outcome of a load (the negotiated AV info and pixel format, or the
  error) comes from the plugin and the filesystem.
\<close>

datatype cause =
    content_loaded nat retro_pixel_format
  | load_failed Error
  | run_frame
  | unload
  | fault Error

text \<open>
  Modelled from the spec: the code that emits \<open>signalStateChanged\<close> is not in
  \<open>core.h\<close>. The payload is the one section 4.2 of the design document, and the
  comment at the head of \<open>core.h\<close>, give for each state.
\<close>

definition payload :: "Core_lifecycle \<Rightarrow> State \<Rightarrow> stateChangedData option" where
  "payload c s =
     (case s of
        STATEUNINITIALIZED \<Rightarrow> None
      | STATEREADY \<Rightarrow>
          Some (Data_avInfo \<lparr>avInfo = Core_avInfo c, pixelFormat = Core_pixelFormat c\<rparr>)
      | STATEFINISHED \<Rightarrow> None
      | STATEERROR \<Rightarrow> Some (Data_error (Core_error c)))"

text \<open>
  Modelled from the spec: entering a state sets it and emits the one notification.
\<close>

definition enter :: "Core_lifecycle \<Rightarrow> State \<Rightarrow> Core_lifecycle \<times> notification list" where
  "enter c s = (c\<lparr>Core_state := s\<rparr>, [(s, payload c s)])"

text \<open>
  Modelled from the spec: a load is accepted in \<open>Uninitialized\<close> and, as a re-entry,
  in \<open>Finished\<close> and \<open>Error\<close>.
\<close>

definition may_load :: "State \<Rightarrow> bool" where
  "may_load s = (s = STATEUNINITIALIZED \<or> s = STATEFINISHED \<or> s = STATEERROR)"

text \<open>
  Modelled from the spec: the bodies of \<open>slotLoadCore\<close>, \<open>slotLoadGame\<close>,
  \<open>slotDoFrame\<close> and \<open>emitReadyState\<close> are not in \<open>core.h\<close>. The transitions are
  those of section 4.2 of the design document: a load ends in \<open>Ready\<close> or in
  \<open>Error\<close>; a frame and an unload are permitted in \<open>Ready\<close>; a fault leads to
  \<open>Error\<close> from any state. \<open>None\<close> is a request the state does not permit.
\<close>

fun transition :: "Core_lifecycle \<Rightarrow> cause \<Rightarrow> (Core_lifecycle \<times> notification list) option" where
  "transition c (content_loaded av pf) =
     (if may_load (Core_state c)
      then Some (enter (c\<lparr>Core_avInfo := av, Core_pixelFormat := pf\<rparr>) STATEREADY)
      else None)"
| "transition c (load_failed e) =
     (if may_load (Core_state c) then Some (enter (c\<lparr>Core_error := e\<rparr>) STATEERROR) else None)"
| "transition c run_frame =
     (if Core_state c = STATEREADY then Some (enter c STATEREADY) else None)"
| "transition c unload =
     (if Core_state c = STATEREADY then Some (enter c STATEFINISHED) else None)"
| "transition c (fault e) = Some (enter (c\<lparr>Core_error := e\<rparr>) STATEERROR)"

subsection \<open>The buffer pools\<close>

text \<open>
  The members are those of \<open>core.h\<close>: two arrays of 30 buffers, each with its index, and
  the fill of the current audio buffer in bytes. A buffer is the list of its elements.
\<close>

record Core_pools =
  audioBufferPool :: "16 word list list"
  audioBufferPoolIndex :: int
  audioBufferCurrentByte :: int
  videoBufferPool :: "8 word list list"
  videoBufferPoolIndex :: int

definition pool_slots :: int where
  "pool_slots = 30"

text \<open>
  Modelled from the spec: the body of \<open>videoRefreshCallback\<close> is not in \<open>core.h\<close>. It
  copies the frame into the current video slot and advances the index, cyclically. A
  write through an index outside the array is undefined behaviour (\<open>None\<close>).
\<close>

definition videoRefreshCallback :: "Core_pools \<Rightarrow> 8 word list \<Rightarrow> Core_pools option" where
  "videoRefreshCallback c data =
     (let i = videoBufferPoolIndex c in
      if 0 \<le> i \<and> i < pool_slots \<and> nat i < length (videoBufferPool c)
      then Some (c\<lparr>videoBufferPool := (videoBufferPool c)[nat i := data],
                   videoBufferPoolIndex := (i + 1) mod pool_slots\<rparr>)
      else None)"

text \<open>
  Modelled from the spec: the bodies of \<open>audioSampleCallback\<close> and
  \<open>audioSampleBatchCallback\<close> are not in \<open>core.h\<close>. A stereo sample is four bytes,
  written into the current audio slot at \<open>audioBufferCurrentByte\<close>; when the slot has
  its per-frame quota of bytes the index advances, cyclically, and the fill starts again
  at 0. \<open>quota\<close> is the size of a slot in bytes.
\<close>

definition audioSampleCallback ::
    "int \<Rightarrow> Core_pools \<Rightarrow> 16 word \<times> 16 word \<Rightarrow> Core_pools option" where
  "audioSampleCallback quota c sample =
     (let i = audioBufferPoolIndex c; byte = audioBufferCurrentByte c in
      if 0 \<le> i \<and> i < pool_slots \<and> nat i < length (audioBufferPool c)
         \<and> 0 \<le> byte \<and> byte + 4 \<le> quota
         \<and> nat (byte div 2) + 1 < length (audioBufferPool c ! nat i)
      then
        (let slot = (audioBufferPool c ! nat i)
                      [nat (byte div 2) := fst sample, nat (byte div 2) + 1 := snd sample];
             c' = c\<lparr>audioBufferPool := (audioBufferPool c)[nat i := slot]\<rparr>
         in if byte + 4 \<ge> quota
            then Some (c'\<lparr>audioBufferPoolIndex := (i + 1) mod pool_slots,
                          audioBufferCurrentByte := 0\<rparr>)
            else Some (c'\<lparr>audioBufferCurrentByte := byte + 4\<rparr>))
      else None)"

text \<open>
  Modelled from the spec: a batch is its samples, one after the other.
\<close>

fun audioSampleBatchCallback ::
    "int \<Rightarrow> Core_pools \<Rightarrow> (16 word \<times> 16 word) list \<Rightarrow> Core_pools option" where
  "audioSampleBatchCallback quota c [] = Some c"
| "audioSampleBatchCallback quota c (x # xs) =
     (case audioSampleCallback quota c x of
        None \<Rightarrow> None
      | Some c' \<Rightarrow> audioSampleBatchCallback quota c' xs)"

text \<open>
  Modelled from the spec: a run of frames without consumption, one video refresh per
  frame.
\<close>

fun video_frames :: "Core_pools \<Rightarrow> 8 word list list \<Rightarrow> Core_pools option" where
  "video_frames c [] = Some c"
| "video_frames c (f # fs) =
     (case videoRefreshCallback c f of None \<Rightarrow> None | Some c' \<Rightarrow> video_frames c' fs)"

text \<open>
  Modelled from the spec: a run of frames without consumption, one batch of audio samples
  per frame.
\<close>

fun audio_frames :: "int \<Rightarrow> Core_pools \<Rightarrow> (16 word \<times> 16 word) list list \<Rightarrow> Core_pools option" where
  "audio_frames quota c [] = Some c"
| "audio_frames quota c (f # fs) =
     (case audioSampleBatchCallback quota c f of
        None \<Rightarrow> None
      | Some c' \<Rightarrow> audio_frames quota c' fs)"

text \<open>The samples of a frame as they lie in a slot: left, right, left, right.\<close>

fun interleaved :: "(16 word \<times> 16 word) list \<Rightarrow> 16 word list" where
  "interleaved [] = []"
| "interleaved ((l, r) # xs) = l # r # interleaved xs"

text \<open>
  The pools as allocated for a slot size: 30 slots each, both indices in range, the fill
  inside the slot.
\<close>

definition pools_ok :: "int \<Rightarrow> Core_pools \<Rightarrow> bool" where
  "pools_ok quota c =
     (length (audioBufferPool c) = 30 \<and> length (videoBufferPool c) = 30
      \<and> 0 \<le> audioBufferPoolIndex c \<and> audioBufferPoolIndex c < 30
      \<and> 0 \<le> videoBufferPoolIndex c \<and> videoBufferPoolIndex c < 30
      \<and> 0 < quota \<and> quota mod 4 = 0
      \<and> 0 \<le> audioBufferCurrentByte c \<and> audioBufferCurrentByte c < quota
      \<and> audioBufferCurrentByte c mod 4 = 0
      \<and> list_all (\<lambda>slot. int (length slot) * 2 = quota) (audioBufferPool c))"

subsection \<open>SRAM\<close>

text \<open>
  The plugin's region is the list of its bytes (its reported size is the length); the
  storage maps a path to the content of the file there.
\<close>

type_synonym storage = "string \<rightharpoonup> 8 word list"

text \<open>\<open>memcpy( dst, src, n )\<close>: the first \<open>n\<close> bytes of \<open>dst\<close> become those of \<open>src\<close>.\<close>

definition memcpy :: "8 word list \<Rightarrow> 8 word list \<Rightarrow> nat \<Rightarrow> 8 word list" where
  "memcpy dst src n = take n src @ drop n dst"

text \<open>
  Modelled from the spec: the body of \<open>saveSRAM\<close> is not in \<open>core.h\<close>. After
  section 4.5 of the design document, a region of size zero is not supported and
  skipped; any other is copied whole to the save path.
\<close>

definition saveSRAM :: "storage \<Rightarrow> string \<Rightarrow> 8 word list \<Rightarrow> storage" where
  "saveSRAM files path region =
     (if length region = 0 then files else files(path \<mapsto> region))"

text \<open>
  Modelled from the spec: the body of \<open>loadSRAM\<close> is not in \<open>core.h\<close>. After
  section 4.5 of the design document, the file at the save path, if there is one, is
  copied back into the region only when its size is the region's.
\<close>

definition loadSRAM :: "storage \<Rightarrow> string \<Rightarrow> 8 word list \<Rightarrow> 8 word list" where
  "loadSRAM files path region =
     (if length region = 0 then region
      else (case files path of
              None \<Rightarrow> region
            | Some data \<Rightarrow>
                if length data = length region then memcpy region data (length region)
                else region))"

subsection \<open>The active instance\<close>

text \<open>
  \<open>static Core *core\<close> is the one process-wide pointer of \<open>core.h\<close>: null, or the
  instance the callbacks act on. Instances are named by numbers.
\<close>

record 'a process =
  core :: "nat option"
  instances :: "nat \<Rightarrow> 'a"

datatype load_error = rejected_busy

text \<open>
  Modelled from the spec: the code that binds the pointer is not in \<open>core.h\<close>. After
  sections 4.3 and 9 of the design document, a load binds the pointer when it is free
  (or already the loading instance's own) and is rejected when another instance holds
  it.
\<close>

definition load_begin :: "'a process \<Rightarrow> nat \<Rightarrow> load_error + 'a process" where
  "load_begin p self =
     (case core p of
        None \<Rightarrow> Inr (p\<lparr>core := Some self\<rparr>)
      | Some other \<Rightarrow> if other = self then Inr p else Inl rejected_busy)"

text \<open>
  Modelled from the spec: the code that frees the pointer is not in \<open>core.h\<close>. After
  section 9 of the design document, unloading clears it.
\<close>

definition unload_end :: "'a process \<Rightarrow> nat \<Rightarrow> 'a process" where
  "unload_end p self = (if core p = Some self then p\<lparr>core := None\<rparr> else p)"

text \<open>
  Modelled from the spec: the bodies of the callbacks are not in \<open>core.h\<close>. After
  section 4.3 of the design document, a callback acts on the instance the pointer names;
  through a null pointer it cannot act (\<open>None\<close>).
\<close>

definition callback :: "('a \<Rightarrow> 'a) \<Rightarrow> 'a process \<Rightarrow> 'a process option" where
  "callback body p =
     (case core p of
        None \<Rightarrow> None
      | Some i \<Rightarrow> Some (p\<lparr>instances := (instances p)(i := body (instances p i))\<rparr>))"

section \<open>Properties of \<open>Core::Variable\<close>\<close>

subsection \<open>The string operations\<close>

lemma split_on_not_Nil: "split_on sep s \<noteq> []"
  by (induction s) (auto split: list.splits)

lemma split_on_no_sep: "sep \<notin> set xs \<Longrightarrow> split_on sep xs = [xs]"
  by (induction xs) auto

lemma split_on_first:
  "sep \<notin> set xs \<Longrightarrow> split_on sep (xs @ sep # ys) = xs # split_on sep ys"
  by (induction xs) auto

lemma foldl_append_each: "foldl (\<lambda>acc x. acc @ [f x]) ys xs = ys @ map f xs"
  by (induction xs arbitrary: ys) simp_all

lemma indexOf_from_absent:
  "sep \<noteq> [] \<Longrightarrow> \<not> sublist sep s \<Longrightarrow> indexOf_from sep i s = - 1"
  by (induction s arbitrary: i) (auto simp: sublist_Cons_right)

lemma mid_prefix: "mid (pre @ rest) 0 (int (length pre)) = pre"
  by (simp add: mid_def)

lemma mid_suffix: "mid (pre @ sep @ post) (int (length pre) + int (length sep)) (- 1) = post"
  by (simp add: mid_def nat_add_distrib)

text \<open>
  The split is the one list of separator-free pieces that, joined by the separator,
  give the text back; it has one piece more than the text has separators.
\<close>

lemma split_on_join:
  "hd (split_on sep s) @ concat (map ((#) sep) (tl (split_on sep s))) = s"
  by (induction s) (auto split: list.splits simp: split_on_not_Nil)

lemma split_on_sep_free: "c \<in> set (split_on sep s) \<Longrightarrow> sep \<notin> set c"
  by (induction s arbitrary: c) (auto split: list.splits if_splits)

lemma length_split_on: "length (split_on sep s) = Suc (count_list s sep)"
  by (induction s) (auto split: list.splits simp: split_on_not_Nil)

text \<open>
  Where the separator occurs, \<open>indexOf\<close> is the length of the shortest text before an
  occurrence.
\<close>

lemma indexOf_from_first:
  "sublist sep s \<Longrightarrow>
   \<exists>pre post. s = pre @ sep @ post \<and> indexOf_from sep i s = int (i + length pre) \<and>
     (\<forall>pre' post'. s = pre' @ sep @ post' \<longrightarrow> length pre \<le> length pre')"
proof (induction s arbitrary: i)
  case Nil
  then show ?case by simp
next
  case (Cons c cs)
  show ?case
  proof (cases "prefix sep (c # cs)")
    case True
    then obtain post where "c # cs = sep @ post" by (auto simp: prefix_def)
    then have "c # cs = [] @ sep @ post" by simp
    moreover have "indexOf_from sep i (c # cs) = int (i + length ([]::'a list))"
      using True by simp
    moreover have "\<forall>pre' post'. c # cs = pre' @ sep @ post' \<longrightarrow> length ([]::'a list) \<le> length pre'"
      by simp
    ultimately show ?thesis by blast
  next
    case False
    with Cons.prems have "sublist sep cs" by (simp add: sublist_Cons_right)
    from Cons.IH[OF this, of "Suc i"] obtain pre post where
      cs: "cs = pre @ sep @ post" and
      idx: "indexOf_from sep (Suc i) cs = int (Suc i + length pre)" and
      least: "\<forall>pre' post'. cs = pre' @ sep @ post' \<longrightarrow> length pre \<le> length pre'"
      by blast
    have "\<forall>pre' post'. c # cs = pre' @ sep @ post' \<longrightarrow> length (c # pre) \<le> length pre'"
    proof (intro allI impI)
      fix pre' post'
      assume eq: "c # cs = pre' @ sep @ post'"
      show "length (c # pre) \<le> length pre'"
      proof (cases pre')
        case Nil
        with eq have "prefix sep (c # cs)" by (simp add: prefix_def)
        with False show ?thesis by simp
      next
        case (Cons a pre'')
        with eq have "cs = pre'' @ sep @ post'" by simp
        with least have "length pre \<le> length pre''" by blast
        with Cons show ?thesis by simp
      qed
    qed
    moreover have "c # cs = (c # pre) @ sep @ post" using cs by simp
    moreover have "indexOf_from sep i (c # cs) = int (i + length (c # pre))"
      using False idx by simp
    ultimately show ?thesis by blast
  qed
qed

subsection \<open>The encoder and the separators\<close>

text \<open>
  A code unit below 128 is encoded as the byte of the same value, whatever stands around
  it, and every other byte the encoder writes is 128 or more, or is the \<open>?\<close> of a
  code unit that does not encode. So the bytes \<open>;\<close>, space and \<open>|\<close> of an encoded
  text are exactly its code units \<open>;\<close>, space and \<open>|\<close>.
\<close>

lemma unat_small: "k < 65536 \<Longrightarrow> unat (of_nat k :: 16 word) = k"
  by (simp add: unat_of_nat)

lemma unat_bound: "unat (u :: 16 word) < 65536"
  using unsigned_less[of u, where 'a = nat] by simp

lemma toUtf8_char_append_ascii:
  "unat a < 128 \<Longrightarrow>
   toUtf8_char x (map unat (us @ a # Q)) = toUtf8_char x (map unat us)"
  by (cases us) (simp_all add: toUtf8_char_def isLowSurrogate_def)

lemma toUtf8_char_consumed:
  "toUtf8_char x src = Some (t, n) \<Longrightarrow> n \<le> length src"
  by (auto simp: toUtf8_char_def Let_def split: if_splits list.splits)

lemma toUtf8_char_ascii: "x < 128 \<Longrightarrow> toUtf8_char x src = Some ([char_of x], 0)"
  by (simp add: toUtf8_char_def)

lemma toUtf8_char_bytes:
  assumes "toUtf8_char x src = Some (t, n)" and "\<not> x < 128" and "x < 65536"
  shows "\<forall>c \<in> set t. 128 \<le> (of_char c :: nat)"
  using assms
  by (auto simp: toUtf8_char_def Let_def split: if_splits list.splits)


lemma encode_ascii_step:
  "unat u < 128 \<Longrightarrow> convertFromUnicode (u # us) = char_of (unat u) # convertFromUnicode us"
  by (simp add: toUtf8_char_ascii)

lemma encode_around_ascii:
  assumes "unat a < 128"
  shows "convertFromUnicode (P @ a # Q)
    = convertFromUnicode P @ char_of (unat a) # convertFromUnicode Q"
proof (induction P rule: convertFromUnicode.induct)
  case 1
  show ?case using encode_ascii_step[OF assms, of Q] by (simp del: convertFromUnicode.simps(2))
next
  case (2 u us)
  have same: "toUtf8_char (unat u) (map unat (us @ a # Q)) = toUtf8_char (unat u) (map unat us)"
    by (rule toUtf8_char_append_ascii[OF assms])
  show ?case
  proof (cases "toUtf8_char (unat u) (map unat us)")
    case None
    with 2(1) same show ?thesis by simp
  next
    case (Some r)
    obtain t n where r: "r = (t, n)" by (cases r)
    from Some r have n: "n \<le> length us"
      using toUtf8_char_consumed[of "unat u" "map unat us" t n] by simp
    from 2(2)[OF Some r[symmetric]] have
      "convertFromUnicode (drop n us @ a # Q)
        = convertFromUnicode (drop n us) @ char_of (unat a) # convertFromUnicode Q" .
    with Some r same n show ?thesis by simp
  qed
qed

lemma encode_find_ascii:
  assumes "(of_char s :: nat) < 128" and "s \<noteq> CHR ''?''"
  shows "convertFromUnicode U = x @ s # y \<Longrightarrow>
    \<exists>P Q. U = P @ of_nat (of_char s) # Q \<and> convertFromUnicode P = x \<and> convertFromUnicode Q = y"
proof (induction U arbitrary: x rule: convertFromUnicode.induct)
  case 1
  then show ?case by simp
next
  case (2 u us)
  let ?s' = "of_nat (of_char s) :: 16 word"
  have s': "unat ?s' < 128" using assms(1) by (simp add: unat_of_nat)
  show ?case
  proof (cases "unat u < 128")
    case True
    then have step: "convertFromUnicode (u # us) = char_of (unat u) # convertFromUnicode us"
      by (rule encode_ascii_step)
    have tok: "toUtf8_char (unat u) (map unat us) = Some ([char_of (unat u)], 0)"
      using True by (rule toUtf8_char_ascii)
    show ?thesis
    proof (cases x)
      case Nil
      with step 2(3) have c: "char_of (unat u) = s" and y: "convertFromUnicode us = y" by simp_all
      from c have "(of_char s :: nat) = unat u mod 256" by auto
      with True have "(of_char s :: nat) = unat u" by simp
      then have "u = ?s'" by simp
      with Nil y show ?thesis by force
    next
      case (Cons c x')
      with step 2(3) have c: "c = char_of (unat u)" and rest: "convertFromUnicode us = x' @ s # y"
        by simp_all
      from 2(2)[OF tok refl, of x'] rest obtain P Q where
        "us = P @ ?s' # Q" "convertFromUnicode P = x'" "convertFromUnicode Q = y"
        by auto
      then have "u # us = (u # P) @ ?s' # Q \<and> convertFromUnicode (u # P) = x
          \<and> convertFromUnicode Q = y"
        using Cons c encode_ascii_step[OF True, of P]
        by (simp del: convertFromUnicode.simps(2))
      then show ?thesis by blast
    qed
  next
    case False
    obtain t n where tok: "convertFromUnicode (u # us) = t @ convertFromUnicode (drop n us)"
      and t: "t \<noteq> []" "s \<notin> set t" and n: "n \<le> length us"
      and ih: "\<And>x'. convertFromUnicode (drop n us) = x' @ s # y \<Longrightarrow>
          \<exists>P Q. drop n us = P @ ?s' # Q \<and> convertFromUnicode P = x' \<and> convertFromUnicode Q = y"
      and same: "\<And>P Q. us = take n us @ P @ ?s' # Q \<Longrightarrow>
          convertFromUnicode (u # take n us @ P) = t @ convertFromUnicode P"
    proof (cases "toUtf8_char (unat u) (map unat us)")
      case None
      have "convertFromUnicode (u # take 0 us @ P) = [CHR ''?''] @ convertFromUnicode P"
        if "us = take 0 us @ P @ ?s' # Q" for P Q
      proof -
        from that have "us = P @ ?s' # Q" by simp
        then have "toUtf8_char (unat u) (map unat P) = toUtf8_char (unat u) (map unat us)"
          using toUtf8_char_append_ascii[OF s', of "unat u" P Q] by simp
        with None show ?thesis by simp
      qed
      moreover have "convertFromUnicode (u # us) = [CHR ''?''] @ convertFromUnicode (drop 0 us)"
        using None by simp
      moreover have "\<And>x'. convertFromUnicode (drop 0 us) = x' @ s # y \<Longrightarrow>
          \<exists>P Q. drop 0 us = P @ ?s' # Q \<and> convertFromUnicode P = x' \<and> convertFromUnicode Q = y"
        using 2(1)[OF None] by simp
      ultimately show ?thesis using that[of "[CHR ''?'']" 0] assms(2) by simp
    next
      case (Some r)
      obtain t n where r: "r = (t, n)" by (cases r)
      have n: "n \<le> length us"
        using toUtf8_char_consumed[of "unat u" "map unat us" t n] Some r by simp
      have bytes: "\<forall>c \<in> set t. 128 \<le> (of_char c :: nat)"
        using toUtf8_char_bytes[of "unat u" "map unat us" t n] Some r False unat_bound[of u]
        by simp
      have ne: "t \<noteq> []"
        using Some r False by (auto simp: toUtf8_char_def Let_def split: if_splits list.splits)
      have notin: "s \<notin> set t" using bytes assms(1) by auto
      have "convertFromUnicode (u # take n us @ P) = t @ convertFromUnicode P"
        if "us = take n us @ P @ ?s' # Q" for P Q
      proof -
        from that have "us = (take n us @ P) @ ?s' # Q" by simp
        then have "toUtf8_char (unat u) (map unat (take n us @ P))
            = toUtf8_char (unat u) (map unat us)"
          using toUtf8_char_append_ascii[OF s', of "unat u" "take n us @ P" Q] by simp
        with Some r n show ?thesis by simp
      qed
      moreover have "convertFromUnicode (u # us) = t @ convertFromUnicode (drop n us)"
        using Some r by simp
      moreover have "\<And>x'. convertFromUnicode (drop n us) = x' @ s # y \<Longrightarrow>
          \<exists>P Q. drop n us = P @ ?s' # Q \<and> convertFromUnicode P = x' \<and> convertFromUnicode Q = y"
        using 2(2)[OF Some r[symmetric]] by simp
      ultimately show ?thesis using that[of t n] ne notin n by simp
    qed
    from tok 2(3) have eq: "t @ convertFromUnicode (drop n us) = x @ s # y" by simp
    then obtain w where w: "x = t @ w" "convertFromUnicode (drop n us) = w @ s # y"
    proof -
      from eq obtain z where "(t = x @ z \<and> z @ convertFromUnicode (drop n us) = s # y)
          \<or> (t @ z = x \<and> convertFromUnicode (drop n us) = z @ s # y)"
        by (auto simp: append_eq_append_conv2)
      then show ?thesis
      proof
        assume a: "t = x @ z \<and> z @ convertFromUnicode (drop n us) = s # y"
        show ?thesis
        proof (cases z)
          case Nil
          with a that[of "[]"] show ?thesis by simp
        next
          case (Cons c z')
          with a have "s \<in> set t" by simp
          with t show ?thesis by simp
        qed
      next
        assume "t @ z = x \<and> convertFromUnicode (drop n us) = z @ s # y"
        with that[of z] show ?thesis by simp
      qed
    qed
    from ih[OF w(2)] obtain P Q where
      d: "drop n us = P @ ?s' # Q" and p: "convertFromUnicode P = w" and q: "convertFromUnicode Q = y"
      by blast
    have us: "us = take n us @ P @ ?s' # Q"
      using d append_take_drop_id[of n us] by simp
    have "convertFromUnicode (u # take n us @ P) = x"
      using same[OF us] p w(1) by simp
    moreover have "u # us = (u # take n us @ P) @ ?s' # Q" using us by simp
    ultimately show ?thesis using q by blast
  qed
qed

lemma toUtf8_char_not_Nil: "toUtf8_char x src = Some (t, n) \<Longrightarrow> t \<noteq> []"
  by (auto simp: toUtf8_char_def Let_def split: if_splits list.splits)

lemma encode_Nil: "convertFromUnicode U = [] \<Longrightarrow> U = []"
proof (cases U)
  case Nil
  then show ?thesis by simp
next
  case (Cons u us)
  assume e: "convertFromUnicode U = []"
  show ?thesis
  proof (cases "toUtf8_char (unat u) (map unat us)")
    case None
    with Cons e show ?thesis by simp
  next
    case (Some r)
    obtain t n where "r = (t, n)" by (cases r)
    with Some Cons e toUtf8_char_not_Nil[of "unat u" "map unat us" t n] show ?thesis by simp
  qed
qed

lemma encode_find_pair:
  assumes "(of_char s1 :: nat) < 128" "s1 \<noteq> CHR ''?''"
    and "(of_char s2 :: nat) < 128" "s2 \<noteq> CHR ''?''"
    and "convertFromUnicode U = x @ [s1, s2] @ y"
  shows "\<exists>P Q. U = P @ [of_nat (of_char s1), of_nat (of_char s2)] @ Q
    \<and> convertFromUnicode P = x \<and> convertFromUnicode Q = y"
proof -
  from assms(5) have "convertFromUnicode U = x @ s1 # (s2 # y)" by simp
  from encode_find_ascii[OF assms(1,2) this] obtain P Q' where
    U: "U = P @ of_nat (of_char s1) # Q'" and P: "convertFromUnicode P = x"
    and Q': "convertFromUnicode Q' = [] @ s2 # y"
    by auto
  from encode_find_ascii[OF assms(3,4) Q'] obtain P2 Q where
    Q2: "Q' = P2 @ of_nat (of_char s2) # Q" and P2: "convertFromUnicode P2 = []"
    and Q: "convertFromUnicode Q = y"
    by auto
  from P2 have "P2 = []" by (rule encode_Nil)
  with U Q2 have "U = P @ [of_nat (of_char s1), of_nat (of_char s2)] @ Q" by simp
  with P Q show ?thesis by blast
qed

lemma encode_no_sep:
  assumes "(of_char s :: nat) < 128" "s \<noteq> CHR ''?''"
    and "of_nat (of_char s) \<notin> set U"
  shows "s \<notin> set (convertFromUnicode U)"
proof
  assume "s \<in> set (convertFromUnicode U)"
  then obtain x y where "convertFromUnicode U = x @ s # y"
    by (auto simp: in_set_conv_decomp)
  from encode_find_ascii[OF assms(1,2) this] assms(3) show False by auto
qed

lemma encode_split:
  assumes "(of_char s :: nat) < 128" "s \<noteq> CHR ''?''"
  shows "split_on s (convertFromUnicode U)
    = map convertFromUnicode (split_on (of_nat (of_char s)) U)"
proof (induction "length U" arbitrary: U rule: less_induct)
  case less
  let ?s' = "of_nat (of_char s) :: 16 word"
  have s': "unat ?s' < 128" using assms(1) by (simp add: unat_of_nat)
  have chr: "char_of (unat ?s') = s" using assms(1) by (simp add: unat_of_nat)
  show ?case
  proof (cases "?s' \<in> set U")
    case False
    then have "s \<notin> set (convertFromUnicode U)" by (rule encode_no_sep[OF assms])
    with False show ?thesis by (simp add: split_on_no_sep)
  next
    case True
    then obtain P Q where U: "U = P @ ?s' # Q" and P: "?s' \<notin> set P"
      by (auto dest: split_list_first)
    have "convertFromUnicode U = convertFromUnicode P @ s # convertFromUnicode Q"
      unfolding U using encode_around_ascii[OF s', of P Q] chr by simp
    moreover have "s \<notin> set (convertFromUnicode P)" using P by (rule encode_no_sep[OF assms])
    ultimately have "split_on s (convertFromUnicode U)
        = convertFromUnicode P # split_on s (convertFromUnicode Q)"
      by (simp add: split_on_first)
    moreover have "split_on ?s' U = P # split_on ?s' Q"
      unfolding U using P by (rule split_on_first)
    moreover have "split_on s (convertFromUnicode Q) = map convertFromUnicode (split_on ?s' Q)"
      using less[of Q] U by simp
    ultimately show ?thesis by simp
  qed
qed

lemmas codec_eval = convertToUnicode_def fromUtf8_char_def toUtf8_char_def isSurrogate_def
  isHighSurrogate_def isLowSurrogate_def isContinuationByte_def char_of_eq_iff

lemma separator_units: "QString_of (Some ''; '') = [0x3B, 0x20]"
  by (simp add: QString_of_def codec_eval)

lemma bar_unit: "QChar_of CHR ''|'' = 0x7C"
  by (simp add: QChar_of_def)

lemma encode_around_separator:
  "convertFromUnicode (P @ [0x3B, 0x20] @ Q)
     = convertFromUnicode P @ ''; '' @ convertFromUnicode Q"
proof -
  have a: "unat (0x3B :: 16 word) < 128" "unat (0x20 :: 16 word) < 128" by simp_all
  have c: "char_of (unat (0x3B :: 16 word)) = CHR '';''"
    "char_of (unat (0x20 :: 16 word)) = CHR '' ''"
    by (simp_all add: char_of_eq_iff)
  have "convertFromUnicode (P @ 0x3B # (0x20 # Q))
      = convertFromUnicode P @ CHR '';'' # convertFromUnicode ([] @ 0x20 # Q)"
    using encode_around_ascii[OF a(1), of P "0x20 # Q"] c(1) by simp
  also have "convertFromUnicode ([] @ 0x20 # Q) = CHR '' '' # convertFromUnicode Q"
    using encode_around_ascii[OF a(2), of "[]" Q] c(2) by simp
  finally show ?thesis by simp
qed

lemma encode_find_separator:
  assumes "convertFromUnicode U = x @ ''; '' @ y"
  shows "\<exists>P Q. U = P @ [0x3B, 0x20] @ Q \<and> convertFromUnicode P = x \<and> convertFromUnicode Q = y"
proof -
  from assms have "convertFromUnicode U = x @ [CHR '';'', CHR '' ''] @ y" by simp
  from encode_find_pair[OF _ _ _ _ this] show ?thesis by simp
qed

lemma encode_split_bar:
  "map convertFromUnicode (split_on 0x7C U) = split_on CHR ''|'' (convertFromUnicode U)"
  using encode_split[of "CHR ''|''" U] by simp

text \<open>
  For a C string that decoding and encoding give back, the first separator of the code
  units is the first separator of the bytes.
\<close>

lemma first_separator_bytes:
  assumes rt: "convertFromUnicode U = d"
    and U: "U = pre @ [0x3B, 0x20] @ post"
    and least: "\<forall>pre' post'. U = pre' @ [0x3B, 0x20] @ post' \<longrightarrow> length pre \<le> length pre'"
  shows "d = convertFromUnicode pre @ ''; '' @ convertFromUnicode post
    \<and> (\<forall>b' c'. d = b' @ ''; '' @ c' \<longrightarrow> length (convertFromUnicode pre) \<le> length b')"
proof
  show "d = convertFromUnicode pre @ ''; '' @ convertFromUnicode post"
    using rt U encode_around_separator[of pre post] by simp
  show "\<forall>b' c'. d = b' @ ''; '' @ c' \<longrightarrow> length (convertFromUnicode pre) \<le> length b'"
  proof (intro allI impI)
    fix b' c'
    assume "d = b' @ ''; '' @ c'"
    with rt have "convertFromUnicode U = b' @ ''; '' @ c'" by simp
    from encode_find_separator[OF this] obtain P Q where
      PQ: "U = P @ [0x3B, 0x20] @ Q" and P: "convertFromUnicode P = b'"
      by blast
    from least PQ have le: "length pre \<le> length P" by blast
    from U PQ have "pre @ ([0x3B, 0x20] @ post) = P @ ([0x3B, 0x20] @ Q)" by simp
    then obtain z where "(pre = P @ z \<and> z @ [0x3B, 0x20] @ post = [0x3B, 0x20] @ Q)
        \<or> (pre @ z = P \<and> [0x3B, 0x20] @ post = z @ [0x3B, 0x20] @ Q)"
      unfolding append_eq_append_conv2 by blast
    then have "\<exists>w. P = pre @ w \<and> (w = [] \<or> (\<exists>w'. w = 0x3B # w'))"
    proof
      assume h: "pre = P @ z \<and> z @ [0x3B, 0x20] @ post = [0x3B, 0x20] @ Q"
      with le have "z = []" by simp
      with h have "P = pre @ []" by simp
      then show ?thesis by blast
    next
      assume h: "pre @ z = P \<and> [0x3B, 0x20] @ post = z @ [0x3B, 0x20] @ Q"
      show ?thesis
      proof (cases z)
        case Nil
        with h have "P = pre @ []" by simp
        then show ?thesis by blast
      next
        case (Cons a z')
        with h have "a = 0x3B" by simp
        with h Cons have "P = pre @ 0x3B # z'" by simp
        then show ?thesis by blast
      qed
    qed
    then obtain w where w: "P = pre @ w" "w = [] \<or> (\<exists>w'. w = 0x3B # w')" by blast
    from w(2) have "length (convertFromUnicode pre) \<le> length (convertFromUnicode (pre @ w))"
    proof
      assume "w = []"
      then show ?thesis by simp
    next
      assume "\<exists>w'. w = 0x3B # w'"
      then obtain w' where "w = 0x3B # w'" ..
      moreover have "unat (0x3B :: 16 word) < 128" by simp
      ultimately show ?thesis
        using encode_around_ascii[of "0x3B" pre w'] by simp
    qed
    with w(1) P show "length (convertFromUnicode pre) \<le> length b'" by simp
  qed
qed

subsection \<open>The decoder and the separator\<close>

text \<open>
  A byte below 128 is decoded as the code unit of the same value, and every other code
  unit the decoder writes is 128 or more. So two adjacent code units \<open>;\<close> and space
  of a decoded text are two adjacent bytes of the C string.
\<close>

lemma fromUtf8_char_consumed:
  "fromUtf8_char b src = Some (units, n) \<Longrightarrow> n \<le> length src"
  by (auto simp: fromUtf8_char_def Let_def Suc_le_eq not_less split: if_splits)

lemma fromUtf8_char_ascii: "b < 128 \<Longrightarrow> fromUtf8_char b src = Some ([of_nat b], 0)"
  by (simp add: fromUtf8_char_def)

lemma fromUtf8_char_shape:
  assumes "fromUtf8_char b src = Some (units, n)" and "\<not> b < 128"
  shows "\<exists>uc. (128 \<le> uc \<and> uc < 65536 \<and> units = [of_nat uc])
     \<or> (65536 \<le> uc \<and> uc \<le> 1114111
          \<and> units = [of_nat (uc div 1024 + 55232), of_nat (uc mod 1024 + 56320)])"
proof -
  define k where "k = (if b < 0xE0 then 2 else if b < 0xF0 then 3 else 4 :: nat)"
  define min_uc where "min_uc = (if b < 0xE0 then 0x80 else if b < 0xF0 then 0x800 else 0x10000 :: nat)"
  define uc0 where "uc0 = (if b < 0xE0 then b mod 32 else if b < 0xF0 then b mod 16 else b mod 8)"
  define uc where "uc = foldl (\<lambda>uc b. uc * 64 + b mod 64) uc0 (take (k - 1) src)"
  have min: "128 \<le> min_uc" by (simp add: min_uc_def)
  from assms have res: "\<not> uc < min_uc" "\<not> 1114111 < uc"
    "units = (if uc < 65536 then [of_nat uc]
              else [of_nat (uc div 1024 + 55232), of_nat (uc mod 1024 + 56320)])"
    unfolding fromUtf8_char_def Let_def k_def[symmetric] min_uc_def[symmetric]
      uc0_def[symmetric] uc_def[symmetric]
    by (auto split: if_splits)
  show ?thesis
  proof (cases "uc < 65536")
    case True
    with res min have "128 \<le> uc \<and> uc < 65536 \<and> units = [of_nat uc]" by simp
    then show ?thesis by blast
  next
    case False
    with res have "65536 \<le> uc \<and> uc \<le> 1114111
          \<and> units = [of_nat (uc div 1024 + 55232), of_nat (uc mod 1024 + 56320)]"
      by simp
    then show ?thesis by blast
  qed
qed

lemma fromUtf8_char_units:
  assumes "fromUtf8_char b src = Some (units, n)" and "\<not> b < 128"
  shows "units \<noteq> [] \<and> (\<forall>w \<in> set units. 128 \<le> unat w)"
proof -
  from fromUtf8_char_shape[OF assms] obtain uc where
    "(128 \<le> uc \<and> uc < 65536 \<and> units = [of_nat uc])
     \<or> (65536 \<le> uc \<and> uc \<le> 1114111
          \<and> units = [of_nat (uc div 1024 + 55232), of_nat (uc mod 1024 + 56320)])"
    by blast
  then show ?thesis
  proof
    assume a: "128 \<le> uc \<and> uc < 65536 \<and> units = [of_nat uc]"
    then have "unat (of_nat uc :: 16 word) = uc" by (simp add: unat_small)
    with a show ?thesis by simp
  next
    assume a: "65536 \<le> uc \<and> uc \<le> 1114111
          \<and> units = [of_nat (uc div 1024 + 55232), of_nat (uc mod 1024 + 56320)]"
    then have "uc div 1024 \<le> 1114111 div 1024" by (intro div_le_mono) simp
    then have "uc div 1024 + 55232 < 65536" "uc mod 1024 + 56320 < 65536" by simp_all
    then have "unat (of_nat (uc div 1024 + 55232) :: 16 word) = uc div 1024 + 55232"
      "unat (of_nat (uc mod 1024 + 56320) :: 16 word) = uc mod 1024 + 56320"
      by (simp_all only: unat_small)
    with a show ?thesis by (simp del: of_nat_add)
  qed
qed

lemma decode_step:
  "\<exists>t n. decode_from (c # cs) = t @ decode_from (drop n cs) \<and> t \<noteq> []
     \<and> (((of_char c :: nat) < 128 \<and> t = [of_nat (of_char c)] \<and> n = 0)
          \<or> (\<forall>w \<in> set t. 128 \<le> unat w))"
proof (cases "fromUtf8_char (of_char c) (map of_char cs)")
  case None
  have "unat (0xFFFD :: 16 word) = 65533" by simp
  then have "\<forall>w \<in> set [0xFFFD :: 16 word]. 128 \<le> unat w" by simp
  moreover have "decode_from (c # cs) = [0xFFFD] @ decode_from (drop 0 cs)"
    using None by simp
  ultimately show ?thesis by blast
next
  case (Some r)
  obtain t n where r: "r = (t, n)" by (cases r)
  have step: "decode_from (c # cs) = t @ decode_from (drop n cs)" using Some r by simp
  show ?thesis
  proof (cases "(of_char c :: nat) < 128")
    case True
    with Some r have "t = [of_nat (of_char c)]" "n = 0"
      by (simp_all add: fromUtf8_char_ascii)
    with step True show ?thesis by blast
  next
    case False
    from fromUtf8_char_units[of "of_char c" "map of_char cs" t n] Some r False
    have "t \<noteq> []" "\<forall>w \<in> set t. 128 \<le> unat w" by simp_all
    with step show ?thesis by blast
  qed
qed

lemma unat_of_char: "unat (of_nat (of_char c :: nat) :: 16 word) = of_char c"
proof -
  have "(of_char c :: nat) < 65536" using nat_of_char_less_256[of c] by linarith
  then show ?thesis by (rule unat_small)
qed

lemma decode_find_ascii:
  assumes a: "unat a < 128"
  shows "decode_from d = X @ a # Y \<Longrightarrow>
    \<exists>p q. d = p @ char_of (unat a) # q \<and> decode_from q = Y \<and> (X = [] \<longrightarrow> p = [])"
proof (induction "length d" arbitrary: d X rule: less_induct)
  case less
  show ?case
  proof (cases d)
    case Nil
    with less.prems show ?thesis by simp
  next
    case (Cons c cs)
    from decode_step[of c cs] obtain t n where
      step: "decode_from (c # cs) = t @ decode_from (drop n cs)" and ne: "t \<noteq> []" and
      kind: "((of_char c :: nat) < 128 \<and> t = [of_nat (of_char c)] \<and> n = 0)
          \<or> (\<forall>w \<in> set t. 128 \<le> unat w)"
      by blast
    have shorter: "length (drop n cs) < length d" using Cons by simp
    from step less.prems Cons have eq: "t @ decode_from (drop n cs) = X @ a # Y" by simp
    show ?thesis
    proof (cases "a \<in> set t")
      case True
      with kind a have asc: "(of_char c :: nat) < 128" "t = [of_nat (of_char c)]" "n = 0"
        by auto
      with True have ac: "a = of_nat (of_char c)" by simp
      have "unat a = of_char c" unfolding ac by (rule unat_of_char)
      then have c: "c = char_of (unat a)" by simp
      show ?thesis
      proof (cases X)
        case Nil
        with eq asc ac have "decode_from cs = Y" by simp
        with Nil Cons c show ?thesis
          by (intro exI[of _ "[]"] exI[of _ cs]) simp
      next
        case (Cons x X')
        with eq asc have rest: "decode_from cs = X' @ a # Y" by simp
        have "length cs < length d" using \<open>d = c # cs\<close> by simp
        from less.hyps[OF this rest] obtain p q where
          pq: "cs = p @ char_of (unat a) # q" "decode_from q = Y" by blast
        show ?thesis using pq Cons \<open>d = c # cs\<close>
          by (intro exI[of _ "c # p"] exI[of _ q]) simp
      qed
    next
      case False
      from eq obtain z where "(t = X @ z \<and> z @ decode_from (drop n cs) = a # Y)
          \<or> (t @ z = X \<and> decode_from (drop n cs) = z @ a # Y)"
        unfolding append_eq_append_conv2 by blast
      then have "\<exists>W. X = t @ W \<and> decode_from (drop n cs) = W @ a # Y"
      proof
        assume h: "t = X @ z \<and> z @ decode_from (drop n cs) = a # Y"
        show ?thesis
        proof (cases z)
          case Nil
          with h have "X = t @ [] \<and> decode_from (drop n cs) = [] @ a # Y" by simp
          then show ?thesis by blast
        next
          case (Cons x z')
          with h have "a \<in> set t" by simp
          with False show ?thesis by simp
        qed
      next
        assume "t @ z = X \<and> decode_from (drop n cs) = z @ a # Y"
        then show ?thesis by blast
      qed
      then obtain W where W: "X = t @ W" "decode_from (drop n cs) = W @ a # Y" by blast
      from less.hyps[OF shorter W(2)] obtain p q where
        d: "drop n cs = p @ char_of (unat a) # q" and q: "decode_from q = Y"
        by blast
      have "cs = take n cs @ p @ char_of (unat a) # q"
        using d append_take_drop_id[of n cs] by simp
      then have "d = (c # take n cs @ p) @ char_of (unat a) # q" using Cons by simp
      moreover have "X \<noteq> []" using W(1) ne by simp
      ultimately show ?thesis using q
        by (intro exI[of _ "c # take n cs @ p"] exI[of _ q]) simp
    qed
  qed
qed

lemma decode_from_pair:
  assumes "unat a1 < 128" "unat a2 < 128"
    and "sublist [a1, a2] (decode_from d)"
  shows "sublist [char_of (unat a1), char_of (unat a2)] d"
proof -
  from assms(3) obtain X Y where "decode_from d = X @ a1 # (a2 # Y)"
    unfolding sublist_def by auto
  from decode_find_ascii[OF assms(1) this] obtain p q where
    d: "d = p @ char_of (unat a1) # q" and q: "decode_from q = [] @ a2 # Y"
    by auto
  from decode_find_ascii[OF assms(2) q] obtain q' where
    "q = char_of (unat a2) # q'" by auto
  with d have "d = p @ [char_of (unat a1), char_of (unat a2)] @ q'" by simp
  then show ?thesis unfolding sublist_def by blast
qed

lemma convertToUnicode_pair:
  assumes "unat a1 < 128" "unat a2 < 128"
    and "sublist [a1, a2] (convertToUnicode d)"
  shows "sublist [char_of (unat a1), char_of (unat a2)] d"
proof (cases "take 3 d = [CHR 0xEF, CHR 0xBB, CHR 0xBF]")
  case True
  with assms(3) have "sublist [a1, a2] (decode_from (drop 3 d))"
    by (simp add: convertToUnicode_def)
  then have "sublist [char_of (unat a1), char_of (unat a2)] (drop 3 d)"
    by (rule decode_from_pair[OF assms(1,2)])
  then obtain p q where "drop 3 d = p @ [char_of (unat a1), char_of (unat a2)] @ q"
    unfolding sublist_def by blast
  then have "d = (take 3 d @ p) @ [char_of (unat a1), char_of (unat a2)] @ q"
    using append_take_drop_id[of 3 d] by simp
  then show ?thesis unfolding sublist_def by blast
next
  case False
  with assms(3) have "sublist [a1, a2] (decode_from d)"
    by (simp add: convertToUnicode_def)
  then show ?thesis by (rule decode_from_pair[OF assms(1,2)])
qed

text \<open>Every C string of bytes below 128 is given back by decoding and encoding.\<close>

lemma decode_from_ascii:
  "\<forall>c \<in> set d. (of_char c :: nat) < 128 \<Longrightarrow> decode_from d = map (\<lambda>c. of_nat (of_char c)) d"
  by (induction d) (simp_all add: fromUtf8_char_ascii)

lemma encode_ascii:
  "\<forall>c \<in> set d. (of_char c :: nat) < 128 \<Longrightarrow>
   convertFromUnicode (map (\<lambda>c. of_nat (of_char c)) d) = d"
proof (induction d)
  case Nil
  then show ?case by simp
next
  case (Cons c cs)
  have u: "unat (of_nat (of_char c :: nat) :: 16 word) = of_char c" by (rule unat_of_char)
  with Cons.prems have "unat (of_nat (of_char c :: nat) :: 16 word) < 128" by simp
  from encode_ascii_step[OF this, of "map (\<lambda>c. of_nat (of_char c)) cs"] u Cons
  show ?case by (simp del: convertFromUnicode.simps(2))
qed

lemma ascii_round_trip:
  assumes "\<forall>c \<in> set d. (of_char c :: nat) < 128"
  shows "toStdString (QString_of (Some d)) = d"
proof -
  have "take 3 d \<noteq> [CHR 0xEF, CHR 0xBB, CHR 0xBF]"
  proof
    assume h: "take 3 d = [CHR 0xEF, CHR 0xBB, CHR 0xBF]"
    then have "CHR 0xEF \<in> set (take 3 d)" by simp
    then have "CHR 0xEF \<in> set d" by (rule in_set_takeD)
    with assms have "(of_char (CHR 0xEF) :: nat) < 128" by blast
    then show False by simp
  qed
  then have "convertToUnicode d = decode_from d" by (simp add: convertToUnicode_def)
  with assms show ?thesis
    by (simp add: toStdString_def QString_of_def decode_from_ascii encode_ascii)
qed

subsection \<open>The constructor and the accessors\<close>

lemma no_separator_units:
  assumes "\<not> sublist ''; '' (case p of None \<Rightarrow> [] | Some d \<Rightarrow> d)"
  shows "\<not> sublist [0x3B, 0x20] (QString_of p)"
proof (cases p)
  case None
  then show ?thesis by (simp add: QString_of_def)
next
  case (Some d)
  show ?thesis
  proof
    assume "sublist [0x3B, 0x20] (QString_of p)"
    with Some have "sublist [0x3B, 0x20 :: 16 word] (convertToUnicode d)"
      by (simp add: QString_of_def)
    from convertToUnicode_pair[OF _ _ this]
    have "sublist [char_of (unat (0x3B :: 16 word)), char_of (unat (0x20 :: 16 word))] d"
      by simp
    moreover have "char_of (unat (0x3B :: 16 word)) = CHR '';''"
      "char_of (unat (0x20 :: 16 word)) = CHR '' ''"
      by (simp_all add: char_of_eq_iff)
    ultimately have "sublist ''; '' d" by simp
    with assms Some show False by simp
  qed
qed

lemma Variable_of_absent:
  assumes "var_key var = Some k"
    and "\<not> sublist ''; '' (case var_value var of None \<Rightarrow> [] | Some d \<Rightarrow> d)"
  shows "Variable_of var = Some (Variable_default\<lparr>m_key := k\<rparr>)"
proof -
  have "\<not> sublist [0x3B, 0x20] (QString_of (var_value var))"
    using assms(2) by (rule no_separator_units)
  then have "indexOf (QString_of (var_value var)) [0x3B, 0x20] = - 1"
    unfolding indexOf_def by (intro indexOf_from_absent) simp_all
  with assms(1) show ?thesis by (simp add: Variable_of_def separator_units)
qed

lemma Variable_of_present:
  assumes "var_key var = Some k"
    and "QString_of (var_value var) = pre @ [0x3B, 0x20] @ post"
    and "indexOf (QString_of (var_value var)) [0x3B, 0x20] = int (length pre)"
  shows "Variable_of var =
    Some \<lparr>m_key = k, m_value = [], m_description = convertFromUnicode pre,
          m_choices = map convertFromUnicode (split_on 0x7C post)\<rparr>"
proof -
  have "mid (pre @ [0x3B, 0x20] @ post) 0 (int (length pre)) = pre"
    by (rule mid_prefix)
  moreover have "mid (pre @ [0x3B, 0x20] @ post) (int (length pre) + 2) (- 1) = post"
    using mid_suffix[of pre "[0x3B, 0x20]" post] by simp
  ultimately show ?thesis
    using assms
    by (simp add: Variable_of_def Variable_default_def foldl_append_each separator_units
        bar_unit toStdString_def)
qed

text \<open>
  C1. A descriptor without the separator \<open>''; ''\<close> (a null descriptor included): the
  constructor returns, the Variable has the key the plugin supplied, an empty
  description and no choices, and \<open>value\<close> answers with the caller's default, or with
  the empty string when none is given.
\<close>

theorem Variable_without_separator:
  assumes "var_key var = Some k"
    and "\<not> sublist ''; '' (case var_value var of None \<Rightarrow> [] | Some d \<Rightarrow> d)"
  shows "\<exists>v. Variable_of var = Some v \<and> key v = k \<and> description v = [] \<and> choices v = []
           \<and> Variable_value v d = d \<and> Variable_value0 v = []"
  using Variable_of_absent[OF assms]
  by (simp add: key_def description_def choices_def Variable_value_def Variable_value0_def
      Variable_default_def)

theorem Variable_without_separator_witness:
  "\<not> sublist ''; '' ''slow|fast''
   \<and> (\<exists>v. Variable_of \<lparr>var_key = Some ''speed'', var_value = Some ''slow|fast''\<rparr> = Some v
          \<and> key v = ''speed'' \<and> description v = [] \<and> choices v = []
          \<and> Variable_value v ''slow'' = ''slow'' \<and> Variable_value0 v = [])"
proof -
  have h: "\<not> sublist ''; '' ''slow|fast''"
    by (simp add: sublist_Cons_right)
  show ?thesis
    using h Variable_without_separator
      [of "\<lparr>var_key = Some ''speed'', var_value = Some ''slow|fast''\<rparr>" "''speed''" "''slow''"]
    by simp
qed

lemma ascii_example_round_trip:
  "toStdString (QString_of (Some ''Speed; slow|fast||fast'')) = ''Speed; slow|fast||fast''"
  by (simp add: toStdString_def QString_of_def codec_eval)

lemma utf8_example_round_trip:
  "toStdString (QString_of (Some [CHR ''G'', CHR ''r'', CHR 0xC3, CHR 0xB6, CHR 0xC3, CHR 0x9F,
       CHR ''e'', CHR '';'', CHR '' '', CHR ''1'', CHR ''|'', CHR 0xE2, CHR 0x82, CHR 0xAC]))
   = [CHR ''G'', CHR ''r'', CHR 0xC3, CHR 0xB6, CHR 0xC3, CHR 0x9F,
       CHR ''e'', CHR '';'', CHR '' '', CHR ''1'', CHR ''|'', CHR 0xE2, CHR 0x82, CHR 0xAC]"
  by (simp add: toStdString_def QString_of_def codec_eval)

text \<open>
  C2, amended. A descriptor with the separator that decoding and encoding give back, as
  they do every string of bytes below 128 (lemma \<open>ascii_round_trip\<close>) and the UTF-8
  text of lemma \<open>utf8_example_round_trip\<close>: the description is the text before the
  first occurrence of \<open>''; ''\<close> (no occurrence has a shorter text before it), and the
  choices are the split of the text after it on \<open>|\<close>: the pieces in order, none
  holding a \<open>|\<close>, that joined by \<open>|\<close> give that text back, one more than it has
  \<open>|\<close>; so equal and empty pieces are all kept.
\<close>

theorem Variable_with_separator:
  assumes "var_key var = Some k"
    and "var_value var = Some d"
    and "sublist ''; '' d"
    and "toStdString (QString_of (Some d)) = d"
  shows "\<exists>v pre post. Variable_of var = Some v
           \<and> d = pre @ ''; '' @ post
           \<and> (\<forall>pre' post'. d = pre' @ ''; '' @ post' \<longrightarrow> length pre \<le> length pre')
           \<and> key v = k
           \<and> description v = pre
           \<and> choices v = split_on CHR ''|'' post
           \<and> choices v \<noteq> []
           \<and> hd (choices v) @ concat (map ((#) CHR ''|'') (tl (choices v))) = post
           \<and> (\<forall>c \<in> set (choices v). CHR ''|'' \<notin> set c)
           \<and> length (choices v) = Suc (count_list post CHR ''|'')"
proof -
  let ?U = "QString_of (var_value var)"
  from assms(2,4) have rt: "convertFromUnicode ?U = d"
    by (simp add: toStdString_def)
  from assms(3) obtain x y where "d = x @ ''; '' @ y" unfolding sublist_def by blast
  with rt have "convertFromUnicode ?U = x @ ''; '' @ y" by simp
  from encode_find_separator[OF this] have "sublist [0x3B, 0x20] ?U"
    unfolding sublist_def by blast
  from indexOf_from_first[OF this, of 0] obtain upre upost where
    eq: "?U = upre @ [0x3B, 0x20] @ upost" and
    idx: "indexOf ?U [0x3B, 0x20] = int (length upre)" and
    least: "\<forall>pre' post'. ?U = pre' @ [0x3B, 0x20] @ post' \<longrightarrow> length upre \<le> length pre'"
    unfolding indexOf_def by auto
  let ?pre = "convertFromUnicode upre" and ?post = "convertFromUnicode upost"
  let ?v = "\<lparr>m_key = k, m_value = [], m_description = ?pre,
              m_choices = split_on CHR ''|'' ?post\<rparr>"
  have v: "Variable_of var = Some ?v"
    using Variable_of_present[OF assms(1) eq idx] by (simp add: encode_split_bar)
  from first_separator_bytes[OF rt eq least] have
    d: "d = ?pre @ ''; '' @ ?post" and
    first: "\<forall>pre' post'. d = pre' @ ''; '' @ post' \<longrightarrow> length ?pre \<le> length pre'"
    by blast+
  have "key ?v = k" "description ?v = ?pre" "choices ?v = split_on CHR ''|'' ?post"
    by (simp_all add: key_def description_def choices_def)
  moreover have "choices ?v \<noteq> []"
    by (simp add: choices_def split_on_not_Nil)
  moreover have "hd (choices ?v) @ concat (map ((#) CHR ''|'') (tl (choices ?v))) = ?post"
    by (simp add: choices_def split_on_join)
  moreover have "\<forall>c \<in> set (choices ?v). CHR ''|'' \<notin> set c"
    by (simp add: choices_def split_on_sep_free)
  moreover have "length (choices ?v) = Suc (count_list ?post CHR ''|'')"
    by (simp add: choices_def length_split_on)
  ultimately show ?thesis using v d first by blast
qed

theorem Variable_with_separator_witness:
  "sublist ''; '' ''Speed; slow|fast||fast''
   \<and> toStdString (QString_of (Some ''Speed; slow|fast||fast'')) = ''Speed; slow|fast||fast''
   \<and> (\<exists>v pre post.
         Variable_of \<lparr>var_key = Some ''speed'', var_value = Some ''Speed; slow|fast||fast''\<rparr>
           = Some v
         \<and> ''Speed; slow|fast||fast'' = pre @ ''; '' @ post
         \<and> description v = pre \<and> pre = ''Speed''
         \<and> choices v = split_on CHR ''|'' post
         \<and> choices v = [''slow'', ''fast'', [], ''fast''])"
proof -
  let ?d = "''Speed; slow|fast||fast''"
  let ?var = "\<lparr>var_key = Some ''speed'', var_value = Some ?d\<rparr>"
  have h: "sublist ''; '' ?d"
    by (simp add: sublist_Cons_right)
  have rt: "toStdString (QString_of (Some ?d)) = ?d"
    by (rule ascii_example_round_trip)
  have run: "Variable_of ?var = Some \<lparr>m_key = ''speed'', m_value = [],
      m_description = ''Speed'', m_choices = [''slow'', ''fast'', [], ''fast'']\<rparr>"
    by (simp add: Variable_of_def Variable_default_def QString_of_def indexOf_def mid_def
        toStdString_def QChar_of_def codec_eval)
  from Variable_with_separator[of ?var "''speed''" ?d, OF _ _ h rt] obtain v pre post where
    v: "Variable_of ?var = Some v" and
    eq: "?d = pre @ ''; '' @ post" and
    d: "description v = pre" and
    c: "choices v = split_on CHR ''|'' post"
    by auto
  from v run have "v = \<lparr>m_key = ''speed'', m_value = [],
      m_description = ''Speed'', m_choices = [''slow'', ''fast'', [], ''fast'']\<rparr>"
    by simp
  then have "description v = ''Speed''"
    and "choices v = [''slow'', ''fast'', [], ''fast'']"
    by (simp_all add: description_def choices_def)
  with v eq d c h rt show ?thesis
    by auto
qed

text \<open>
  C2, as the claim states it, speaks of every descriptor with the separator. The
  descriptor of the four bytes \<open>FF 3B 20 61\<close> has it, after the one byte \<open>FF\<close>;
  its description is not that byte but the three bytes \<open>EF BF BD\<close>, the encoding of
  the replacement character that decoding put in its place.
\<close>

theorem description_not_the_bytes:
  "sublist ''; '' [CHR 0xFF, CHR '';'', CHR '' '', CHR ''a'']
   \<and> [CHR 0xFF, CHR '';'', CHR '' '', CHR ''a''] = [CHR 0xFF] @ ''; '' @ ''a''
   \<and> indexOf [CHR 0xFF, CHR '';'', CHR '' '', CHR ''a''] ''; '' = 1
   \<and> Variable_of \<lparr>var_key = Some ''speed'',
         var_value = Some [CHR 0xFF, CHR '';'', CHR '' '', CHR ''a'']\<rparr>
       = Some \<lparr>m_key = ''speed'', m_value = [],
           m_description = [CHR 0xEF, CHR 0xBF, CHR 0xBD], m_choices = [''a'']\<rparr>
   \<and> description \<lparr>m_key = ''speed'', m_value = [],
           m_description = [CHR 0xEF, CHR 0xBF, CHR 0xBD], m_choices = [''a'']\<rparr>
       \<noteq> [CHR 0xFF]"
proof -
  have "sublist ''; '' [CHR 0xFF, CHR '';'', CHR '' '', CHR ''a'']"
    by (simp add: sublist_Cons_right)
  moreover have "Variable_of \<lparr>var_key = Some ''speed'',
         var_value = Some [CHR 0xFF, CHR '';'', CHR '' '', CHR ''a'']\<rparr>
       = Some \<lparr>m_key = ''speed'', m_value = [],
           m_description = [CHR 0xEF, CHR 0xBF, CHR 0xBD], m_choices = [''a'']\<rparr>"
    by (simp add: Variable_of_def Variable_default_def QString_of_def indexOf_def mid_def
        toStdString_def QChar_of_def codec_eval)
  moreover have "indexOf [CHR 0xFF, CHR '';'', CHR '' '', CHR ''a''] ''; '' = 1"
    by (simp add: indexOf_def)
  ultimately show ?thesis by (simp add: description_def)
qed

text \<open>
  C3, amended. \<open>value( default_ )\<close> always returns. With the Variable and the
  default alive, the reference it returns designates a live object: the stored value
  when that is not empty, the caller's default object itself when it is; \<open>value()\<close>
  is \<open>value\<close> of a static empty string. The reference is valid for as long as the
  object it designates: of a temporary default, after the full-expression, only when the
  stored value is not empty.
\<close>

theorem Variable_value_reference:
  assumes "objs this_m_value = Some (m_value v)"
    and "objs default_arg = Some d"
  shows "objs (Variable_value_ref v this_m_value default_arg) = Some (Variable_value v d)
   \<and> (m_value v \<noteq> [] \<longrightarrow>
        Variable_value_ref v this_m_value default_arg = this_m_value
        \<and> Variable_value v d = m_value v)
   \<and> (m_value v = [] \<longrightarrow>
        Variable_value_ref v this_m_value default_arg = default_arg
        \<and> Variable_value v d = d)
   \<and> Variable_value0 v = Variable_value v []
   \<and> Variable_value0_ref v this_m_value default_arg
        = Variable_value_ref v this_m_value default_arg
   \<and> (tmp \<notin> dom objs \<longrightarrow>
        (fst (value_of_temporary objs v this_m_value tmp d)
           (snd (value_of_temporary objs v this_m_value tmp d)) \<noteq> None)
        = (m_value v \<noteq> []))"
  using assms
  by (auto simp: Variable_value_ref_def Variable_value_def Variable_value0_def
      Variable_value0_ref_def value_of_temporary_def Let_def)

theorem Variable_value_reference_witness:
  "[0 \<mapsto> ''fast'', 1 \<mapsto> ''slow'']
     (Variable_value_ref \<lparr>m_key = ''speed'', m_value = ''fast'', m_description = ''Speed'',
       m_choices = [''slow'', ''fast'']\<rparr> 0 1) = Some ''fast''
   \<and> [0 \<mapsto> [], 1 \<mapsto> ''slow'']
     (Variable_value_ref \<lparr>m_key = ''speed'', m_value = [], m_description = ''Speed'',
       m_choices = [''slow'', ''fast'']\<rparr> 0 1) = Some ''slow''
   \<and> Variable_value_ref \<lparr>m_key = ''speed'', m_value = ''fast'', m_description = ''Speed'',
       m_choices = [''slow'', ''fast'']\<rparr> 0 1 = 0
   \<and> Variable_value \<lparr>m_key = ''speed'', m_value = ''fast'', m_description = ''Speed'',
       m_choices = [''slow'', ''fast'']\<rparr> ''slow'' = ''fast''
   \<and> Variable_value_ref \<lparr>m_key = ''speed'', m_value = [], m_description = ''Speed'',
       m_choices = [''slow'', ''fast'']\<rparr> 0 1 = 1
   \<and> Variable_value \<lparr>m_key = ''speed'', m_value = [], m_description = ''Speed'',
       m_choices = [''slow'', ''fast'']\<rparr> ''slow'' = ''slow''"
  using Variable_value_reference
      [of "[0 \<mapsto> ''fast'', 1 \<mapsto> ''slow'']" 0
          "\<lparr>m_key = ''speed'', m_value = ''fast'', m_description = ''Speed'',
            m_choices = [''slow'', ''fast'']\<rparr>" 1 "''slow''" 2]
    Variable_value_reference
      [of "[0 \<mapsto> [], 1 \<mapsto> ''slow'']" 0
          "\<lparr>m_key = ''speed'', m_value = [], m_description = ''Speed'',
            m_choices = [''slow'', ''fast'']\<rparr>" 1 "''slow''" 2]
  by simp

text \<open>
  C3, as the claim states it, has the returned reference always valid. With the stored
  value empty and a temporary as the default, the reference returned is the
  temporary's, which is destroyed at the end of the full-expression: after the statement
  it designates no object.
\<close>

theorem reference_to_temporary_dangles:
  "snd (value_of_temporary [0 \<mapsto> []]
         \<lparr>m_key = ''speed'', m_value = [], m_description = [], m_choices = []\<rparr> 0 1 ''slow'') = 1
   \<and> fst (value_of_temporary [0 \<mapsto> []]
         \<lparr>m_key = ''speed'', m_value = [], m_description = [], m_choices = []\<rparr> 0 1 ''slow'') 1
       = None"
  by (simp add: value_of_temporary_def Variable_value_ref_def Let_def)

text \<open>
  C10. \<open>isValid\<close> holds exactly of the Variables with a non-empty key: not of the
  default-constructed one, and of every Variable constructed from a descriptor with a
  non-empty key, whatever its descriptor string.
\<close>

theorem isValid_iff_key:
  "isValid v = (key v \<noteq> [])
   \<and> \<not> isValid Variable_default
   \<and> (var_key var = Some k \<and> k \<noteq> [] \<longrightarrow> (\<exists>w. Variable_of var = Some w \<and> isValid w))"
  by (auto simp: isValid_def key_def Variable_default_def Variable_of_def Let_def)

theorem isValid_iff_key_witness:
  "(\<exists>w. Variable_of \<lparr>var_key = Some ''speed'', var_value = Some ''no separator''\<rparr> = Some w
        \<and> isValid w)
   \<and> (\<exists>w. Variable_of \<lparr>var_key = Some ''speed'', var_value = Some ''Speed; slow|fast''\<rparr> = Some w
        \<and> isValid w)
   \<and> \<not> isValid Variable_default"
  using isValid_iff_key
      [of Variable_default "\<lparr>var_key = Some ''speed'', var_value = Some ''no separator''\<rparr>"
          "''speed''"]
    isValid_iff_key
      [of Variable_default "\<lparr>var_key = Some ''speed'', var_value = Some ''Speed; slow|fast''\<rparr>"
          "''speed''"]
  by simp

section \<open>Properties of the symbol table and of the error enumeration\<close>

text \<open>
  C7. After \<open>clear()\<close> every member of the table is null, whatever it held: the
  eighteen core functions, the seven registration points and the four optional
  callbacks.
\<close>

theorem clear_nulls_every_member:
  "retro_api_version (clear s) = nullptr
   \<and> retro_cheat_reset (clear s) = nullptr
   \<and> retro_cheat_set (clear s) = nullptr
   \<and> retro_deinit (clear s) = nullptr
   \<and> retro_get_memory_data (clear s) = nullptr
   \<and> retro_get_memory_size (clear s) = nullptr
   \<and> retro_get_region (clear s) = nullptr
   \<and> retro_get_system_av_info (clear s) = nullptr
   \<and> retro_get_system_info (clear s) = nullptr
   \<and> retro_init (clear s) = nullptr
   \<and> retro_load_game (clear s) = nullptr
   \<and> retro_load_game_special (clear s) = nullptr
   \<and> retro_reset (clear s) = nullptr
   \<and> retro_run (clear s) = nullptr
   \<and> retro_serialize (clear s) = nullptr
   \<and> retro_serialize_size (clear s) = nullptr
   \<and> retro_unload_game (clear s) = nullptr
   \<and> retro_unserialize (clear s) = nullptr
   \<and> retro_set_audio_sample (clear s) = nullptr
   \<and> retro_set_audio_sample_batch (clear s) = nullptr
   \<and> retro_set_controller_port_device (clear s) = nullptr
   \<and> retro_set_environment (clear s) = nullptr
   \<and> retro_set_input_poll (clear s) = nullptr
   \<and> retro_set_input_state (clear s) = nullptr
   \<and> retro_set_video_refresh (clear s) = nullptr
   \<and> retro_audio (clear s) = nullptr
   \<and> retro_audio_set_state (clear s) = nullptr
   \<and> retro_frame_time (clear s) = nullptr
   \<and> retro_keyboard_event (clear s) = nullptr
   \<and> clear s = clear s'"
  by (simp add: clear_def)

lemma Error_enumerators_all: "set Error_enumerators = UNIV"
proof -
  have "e \<in> set Error_enumerators" for e
    by (cases e) (simp_all add: Error_enumerators_def)
  then show ?thesis by blast
qed

lemma core_load_subkinds:
  "{k. \<exists>e. classify e = Some (core_load, k)} =
     {generic_load_failure, invalid_library_format, not_found, access_denied,
      unknown_filesystem_error}"
proof (intro equalityI subsetI)
  fix k assume "k \<in> {k. \<exists>e. classify e = Some (core_load, k)}"
  then obtain e where "classify e = Some (core_load, k)" by blast
  then show "k \<in> {generic_load_failure, invalid_library_format, not_found, access_denied,
      unknown_filesystem_error}"
    by (cases e) simp_all
next
  fix k assume k: "k \<in> {generic_load_failure, invalid_library_format, not_found,
      access_denied, unknown_filesystem_error}"
  have "classify CORELOAD = Some (core_load, generic_load_failure)"
    "classify CORENOTLIBRARY = Some (core_load, invalid_library_format)"
    "classify CORENOTFOUND = Some (core_load, not_found)"
    "classify COREACCESSDENIED = Some (core_load, access_denied)"
    "classify COREUNKNOWNERROR = Some (core_load, unknown_filesystem_error)"
    by simp_all
  with k show "k \<in> {k. \<exists>e. classify e = Some (core_load, k)}" by blast
qed

lemma content_load_subkinds:
  "{k. \<exists>e. classify e = Some (content_load, k)} =
     {not_found, access_denied, unknown_filesystem_error}"
proof (intro equalityI subsetI)
  fix k assume "k \<in> {k. \<exists>e. classify e = Some (content_load, k)}"
  then obtain e where "classify e = Some (content_load, k)" by blast
  then show "k \<in> {not_found, access_denied, unknown_filesystem_error}"
    by (cases e) simp_all
next
  fix k assume k: "k \<in> {not_found, access_denied, unknown_filesystem_error}"
  have "classify GAMENOTFOUND = Some (content_load, not_found)"
    "classify GAMEACCESSDENIED = Some (content_load, access_denied)"
    "classify GAMEUNKNOWNERROR = Some (content_load, unknown_filesystem_error)"
    by simp_all
  with k show "k \<in> {k. \<exists>e. classify e = Some (content_load, k)}" by blast
qed

lemma no_error_only: "{e. classify e = None} = {CORENOERROR}"
proof (intro equalityI subsetI)
  fix e assume "e \<in> {e. classify e = None}"
  then show "e \<in> {CORENOERROR}" by (cases e) simp_all
next
  fix e assume "e \<in> {CORENOERROR}"
  then show "e \<in> {e. classify e = None}" by simp
qed

text \<open>
  C4, as the claim states it, asks for a generic load failure in the content-load family
  too. No enumerator is one: \<open>CORELOAD\<close> has no \<open>GAME\<close> counterpart.
\<close>

theorem no_generic_content_load_failure:
  "\<not> (\<exists>e. classify e = Some (content_load, generic_load_failure))"
proof
  assume "\<exists>e. classify e = Some (content_load, generic_load_failure)"
  then obtain e where "classify e = Some (content_load, generic_load_failure)" ..
  then show False by (cases e) simp_all
qed

text \<open>
  C4, amended. \<open>Error\<close> is a closed enumeration of nine distinct values, numbered from 0
  in the order of their declaration: the one value for no error; five core-load errors
  (generic load failure, invalid library format, not found, access denied, unknown
  filesystem error); and three content-load errors (not found, access denied, unknown
  filesystem error).
\<close>

theorem Error_enumeration:
  "set Error_enumerators = UNIV
   \<and> distinct Error_enumerators
   \<and> map Error_int Error_enumerators = [0, 1, 2, 3, 4, 5, 6, 7, 8]
   \<and> {e. classify e = None} = {CORENOERROR}
   \<and> {k. \<exists>e. classify e = Some (core_load, k)} =
       {generic_load_failure, invalid_library_format, not_found, access_denied,
        unknown_filesystem_error}
   \<and> {k. \<exists>e. classify e = Some (content_load, k)} =
       {not_found, access_denied, unknown_filesystem_error}"
proof -
  have "distinct Error_enumerators"
    by (simp add: Error_enumerators_def)
  moreover have "map Error_int Error_enumerators = [0, 1, 2, 3, 4, 5, 6, 7, 8]"
    by (simp add: Error_enumerators_def)
  ultimately show ?thesis
    using Error_enumerators_all no_error_only core_load_subkinds content_load_subkinds
    by simp
qed

section \<open>Properties of the state machine, of SRAM and of the active instance\<close>

lemma enter_emits: "enter c s = (c', out) \<Longrightarrow> Core_state c' = s \<and> out = [(s, payload c s)]
    \<and> Core_avInfo c' = Core_avInfo c \<and> Core_pixelFormat c' = Core_pixelFormat c
    \<and> Core_error c' = Core_error c"
  by (auto simp: enter_def)

text \<open>
  C5. A transition emits exactly one notification. Its tag is the new state; its payload
  is nothing for \<open>Uninitialized\<close> and \<open>Finished\<close>, the negotiated AV info and pixel
  format for \<open>Ready\<close>, and the error for \<open>Error\<close>: the one the failed load or the fault
  reported.
\<close>

theorem transition_notifies_once:
  assumes "transition c t = Some (c', out)"
  shows "\<exists>d. out = [(Core_state c', d)]
     \<and> (case Core_state c' of
          STATEUNINITIALIZED \<Rightarrow> d = None
        | STATEREADY \<Rightarrow>
            d = Some (Data_avInfo \<lparr>avInfo = Core_avInfo c', pixelFormat = Core_pixelFormat c'\<rparr>)
        | STATEFINISHED \<Rightarrow> d = None
        | STATEERROR \<Rightarrow> d = Some (Data_error (Core_error c')))
     \<and> (\<forall>av pf. t = content_loaded av pf \<longrightarrow>
           d = Some (Data_avInfo \<lparr>avInfo = av, pixelFormat = pf\<rparr>))
     \<and> (\<forall>e. t = load_failed e \<or> t = fault e \<longrightarrow> d = Some (Data_error e))
     \<and> snd (enter c STATEUNINITIALIZED) = [(STATEUNINITIALIZED, None)]
     \<and> snd (enter c STATEFINISHED) = [(STATEFINISHED, None)]"
proof (cases t)
  case (content_loaded av pf)
  with assms show ?thesis
    by (auto simp: enter_def payload_def split: if_splits)
next
  case (load_failed e)
  with assms show ?thesis
    by (auto simp: enter_def payload_def split: if_splits)
next
  case run_frame
  with assms show ?thesis
    by (auto simp: enter_def payload_def split: if_splits)
next
  case unload
  with assms show ?thesis
    by (auto simp: enter_def payload_def split: if_splits)
next
  case (fault e)
  with assms show ?thesis
    by (auto simp: enter_def payload_def split: if_splits)
qed

theorem transition_notifies_once_witness:
  "transition \<lparr>Core_state = STATEUNINITIALIZED, Core_avInfo = 0,
       Core_pixelFormat = RETRO_PIXEL_FORMAT_UNKNOWN, Core_error = CORENOERROR\<rparr>
     (content_loaded 4096 RETRO_PIXEL_FORMAT_RGB565)
   = Some (\<lparr>Core_state = STATEREADY, Core_avInfo = 4096,
         Core_pixelFormat = RETRO_PIXEL_FORMAT_RGB565, Core_error = CORENOERROR\<rparr>,
       [(STATEREADY, Some (Data_avInfo \<lparr>avInfo = 4096, pixelFormat = RETRO_PIXEL_FORMAT_RGB565\<rparr>))])
   \<and> (\<exists>d. [(STATEREADY, Some (Data_avInfo \<lparr>avInfo = 4096, pixelFormat = RETRO_PIXEL_FORMAT_RGB565\<rparr>))]
          = [(STATEREADY, d)]
        \<and> d = Some (Data_avInfo \<lparr>avInfo = 4096, pixelFormat = RETRO_PIXEL_FORMAT_RGB565\<rparr>))"
proof -
  let ?c = "\<lparr>Core_state = STATEUNINITIALIZED, Core_avInfo = 0,
       Core_pixelFormat = RETRO_PIXEL_FORMAT_UNKNOWN, Core_error = CORENOERROR\<rparr>"
  let ?c' = "\<lparr>Core_state = STATEREADY, Core_avInfo = 4096,
         Core_pixelFormat = RETRO_PIXEL_FORMAT_RGB565, Core_error = CORENOERROR\<rparr>"
  let ?out = "[(STATEREADY, Some (Data_avInfo \<lparr>avInfo = 4096, pixelFormat = RETRO_PIXEL_FORMAT_RGB565\<rparr>))]"
  have run: "transition ?c (content_loaded 4096 RETRO_PIXEL_FORMAT_RGB565) = Some (?c', ?out)"
    by (simp add: may_load_def enter_def payload_def)
  from transition_notifies_once[OF run] run show ?thesis
    by simp
qed

text \<open>
  C8. A region saved and loaded back into a region of the same size comes back byte for
  byte. A file whose size is not the region's, like a missing file, leaves the region as
  it was.
\<close>

theorem SRAM_round_trip:
  "(length region' = length region \<longrightarrow>
      loadSRAM (saveSRAM files path region) path region' = region)
   \<and> (files path = Some data \<and> length data \<noteq> length region' \<longrightarrow>
        loadSRAM files path region' = region')
   \<and> (files path = None \<longrightarrow> loadSRAM files path region' = region')
   \<and> (region \<noteq> [] \<longrightarrow> saveSRAM files path region path = Some region)"
  by (auto simp: loadSRAM_def saveSRAM_def memcpy_def)

theorem SRAM_round_trip_witness:
  "loadSRAM (saveSRAM Map.empty ''game.srm'' [1, 2, 3]) ''game.srm'' [0, 0, 0] = [1, 2, 3]
   \<and> loadSRAM [''game.srm'' \<mapsto> [1, 2, 3]] ''game.srm'' [7, 7] = [7, 7]
   \<and> loadSRAM [''game.srm'' \<mapsto> [1, 2, 3]] ''game.srm'' [7, 7, 7, 7] = [7, 7, 7, 7]
   \<and> loadSRAM Map.empty ''game.srm'' [7, 7] = [7, 7]"
  using SRAM_round_trip[of "[0, 0, 0]" "[1, 2, 3]" Map.empty "''game.srm''" "[]"]
    SRAM_round_trip[of "[7, 7]" "[1, 2, 3]" "[''game.srm'' \<mapsto> [1, 2, 3]]" "''game.srm''" "[1, 2, 3]"]
    SRAM_round_trip[of "[7, 7, 7, 7]" "[1, 2, 3]" "[''game.srm'' \<mapsto> [1, 2, 3]]" "''game.srm''" "[1, 2, 3]"]
    SRAM_round_trip[of "[7, 7]" "[1, 2, 3]" Map.empty "''game.srm''" "[]"]
  by simp

text \<open>
  C9. The pointer names at most one instance. A load by another instance while one is
  bound is rejected and changes nothing; a load that is accepted found the pointer free
  or its own. A callback acts on the bound instance and leaves every other as it was.
\<close>

theorem one_active_instance:
  "(core p = Some i \<and> core p = Some k \<longrightarrow> i = k)
   \<and> (core p = Some i \<and> i \<noteq> j \<longrightarrow> load_begin p j = Inl rejected_busy)
   \<and> (load_begin p j = Inr p' \<longrightarrow>
        core p' = Some j \<and> (core p = None \<or> core p = Some j) \<and> instances p' = instances p)
   \<and> (callback body p = Some p'' \<longrightarrow>
        (\<exists>a. core p = Some a \<and> core p'' = Some a
           \<and> instances p'' a = body (instances p a)
           \<and> (\<forall>b. b \<noteq> a \<longrightarrow> instances p'' b = instances p b)))"
  by (auto simp: load_begin_def callback_def split: option.splits if_splits)

theorem one_active_instance_witness:
  "load_begin \<lparr>core = Some 1, instances = (\<lambda>n. 0::nat)\<rparr> 2 = Inl rejected_busy
   \<and> load_begin \<lparr>core = None, instances = (\<lambda>n. 0::nat)\<rparr> 2
       = Inr \<lparr>core = Some 2, instances = (\<lambda>n. 0::nat)\<rparr>
   \<and> core \<lparr>core = Some 2, instances = (\<lambda>n. 0::nat)\<rparr> = Some 2"
proof -
  have run: "load_begin \<lparr>core = None, instances = (\<lambda>n. 0::nat)\<rparr> 2
       = Inr \<lparr>core = Some 2, instances = (\<lambda>n. 0::nat)\<rparr>"
    by (simp add: load_begin_def)
  show ?thesis
    using run
      one_active_instance[of "\<lparr>core = Some 1, instances = (\<lambda>n. 0::nat)\<rparr>" 1 1 2]
      one_active_instance[of "\<lparr>core = None, instances = (\<lambda>n. 0::nat)\<rparr>" 1 1 2
        "\<lparr>core = Some 2, instances = (\<lambda>n. 0::nat)\<rparr>"]
    by simp
qed

section \<open>Properties of the buffer pools\<close>

lemma ring_shift: "((a + 1) mod 30 + n - 1) mod 30 = (a + (n + 1) - 1) mod (30::int)"
proof -
  have "((a + 1) mod 30 + (n - 1)) mod 30 = ((a + 1) + (n - 1)) mod 30"
    by (rule mod_add_left_eq)
  then show ?thesis by (simp add: algebra_simps)
qed

lemma video_refresh_step:
  assumes "pools_ok quota c"
  shows "\<exists>c'. videoRefreshCallback c f = Some c' \<and> pools_ok quota c'
    \<and> videoBufferPoolIndex c' = (videoBufferPoolIndex c + 1) mod 30
    \<and> videoBufferPool c' = (videoBufferPool c)[nat (videoBufferPoolIndex c) := f]"
  using assms
  by (auto simp: videoRefreshCallback_def pools_ok_def pool_slots_def Let_def)

lemma video_frames_run:
  assumes "pools_ok quota c"
  shows "\<exists>c'. video_frames c fs = Some c' \<and> pools_ok quota c'
    \<and> videoBufferPoolIndex c' = (videoBufferPoolIndex c + int (length fs)) mod 30
    \<and> (fs \<noteq> [] \<longrightarrow>
         videoBufferPool c' ! nat ((videoBufferPoolIndex c + int (length fs) - 1) mod 30) = last fs)"
  using assms
proof (induction fs arbitrary: c)
  case Nil
  then show ?case by (simp add: pools_ok_def)
next
  case (Cons f fs)
  from video_refresh_step[OF Cons.prems, of f] obtain c1 where
    s1: "videoRefreshCallback c f = Some c1" and ok1: "pools_ok quota c1" and
    i1: "videoBufferPoolIndex c1 = (videoBufferPoolIndex c + 1) mod 30" and
    p1: "videoBufferPool c1 = (videoBufferPool c)[nat (videoBufferPoolIndex c) := f]"
    by blast
  from Cons.IH[OF ok1] obtain c' where
    r: "video_frames c1 fs = Some c'" and ok': "pools_ok quota c'" and
    i': "videoBufferPoolIndex c' = (videoBufferPoolIndex c1 + int (length fs)) mod 30" and
    l': "fs \<noteq> [] \<longrightarrow>
         videoBufferPool c' ! nat ((videoBufferPoolIndex c1 + int (length fs) - 1) mod 30) = last fs"
    by blast
  have run: "video_frames c (f # fs) = Some c'" using s1 r by simp
  have idx: "videoBufferPoolIndex c' = (videoBufferPoolIndex c + int (length (f # fs))) mod 30"
    using i' i1 by (simp add: mod_simps add.assoc)
  have lst: "videoBufferPool c' ! nat ((videoBufferPoolIndex c + int (length (f # fs)) - 1) mod 30)
      = last (f # fs)"
  proof (cases "fs = []")
    case True
    with r have "c' = c1" by simp
    moreover have "0 \<le> videoBufferPoolIndex c" "videoBufferPoolIndex c < 30"
      "length (videoBufferPool c) = 30"
      using Cons.prems by (simp_all add: pools_ok_def)
    ultimately show ?thesis using True p1 by simp
  next
    case False
    have "(videoBufferPoolIndex c1 + int (length fs) - 1) mod 30
        = (videoBufferPoolIndex c + int (length (f # fs)) - 1) mod 30"
      unfolding i1 using ring_shift[of "videoBufferPoolIndex c" "int (length fs)"]
      by (simp add: algebra_simps)
    with l' False show ?thesis by simp
  qed
  from run ok' idx lst show ?case by blast
qed

lemma update_pair:
  assumes "Suc p < length s"
  shows "s[p := l, Suc p := r] = take p s @ l # r # drop (p + 2) s"
proof -
  have "s[p := l] = take p s @ l # drop (Suc p) s"
    using assms by (simp add: upd_conv_take_nth_drop)
  moreover have "drop (Suc p) s = s ! Suc p # drop (Suc (Suc p)) s"
    using assms by (simp add: Cons_nth_drop_Suc)
  ultimately show ?thesis
    using assms by (simp add: list_update_append)
qed

lemma drop_past_pair:
  assumes "p + 2 \<le> length s"
  shows "drop (p + 2 + n) (take p s @ l # r # drop (p + 2) s) = drop (p + 2 + n) s"
proof -
  have "length (take p s) = p" using assms by simp
  then have "drop (p + 2 + n) (take p s @ l # r # drop (p + 2) s)
      = drop (2 + n) (l # r # drop (p + 2) s)"
    by (simp add: drop_append)
  also have "\<dots> = drop n (drop (p + 2) s)" by simp
  also have "\<dots> = drop (p + 2 + n) s" by (simp add: add.commute)
  finally show ?thesis .
qed

lemma take_past_pair:
  assumes "p + 2 \<le> length s"
  shows "take (p + 2) (take p s @ l # r # drop (p + 2) s) = take p s @ [l, r]"
  using assms by simp

lemma quota_room:
  assumes "0 \<le> b" "b < q" "b mod 4 = 0" "q mod 4 = (0::int)"
  shows "b + 4 \<le> q"
  using assms by presburger

lemma audio_sample_step:
  assumes ok: "pools_ok q c"
  shows "\<exists>c'. audioSampleCallback q c (l, r) = Some c' \<and> pools_ok q c'
    \<and> videoBufferPool c' = videoBufferPool c
    \<and> videoBufferPoolIndex c' = videoBufferPoolIndex c
    \<and> audioBufferPool c' = (audioBufferPool c)[nat (audioBufferPoolIndex c) :=
          take (nat (audioBufferCurrentByte c div 2)) (audioBufferPool c ! nat (audioBufferPoolIndex c))
          @ l # r # drop (nat (audioBufferCurrentByte c div 2) + 2)
               (audioBufferPool c ! nat (audioBufferPoolIndex c))]
    \<and> (if audioBufferCurrentByte c + 4 = q
         then audioBufferPoolIndex c' = (audioBufferPoolIndex c + 1) mod 30
              \<and> audioBufferCurrentByte c' = 0
         else audioBufferPoolIndex c' = audioBufferPoolIndex c
              \<and> audioBufferCurrentByte c' = audioBufferCurrentByte c + 4)"
proof -
  let ?i = "audioBufferPoolIndex c" and ?b = "audioBufferCurrentByte c"
  let ?slot = "audioBufferPool c ! nat ?i"
  let ?p = "nat (?b div 2)"
  from ok have len: "length (audioBufferPool c) = 30" "length (videoBufferPool c) = 30"
    and i: "0 \<le> ?i" "?i < 30"
    and vi: "0 \<le> videoBufferPoolIndex c" "videoBufferPoolIndex c < 30"
    and q: "0 < q" "q mod 4 = 0"
    and b: "0 \<le> ?b" "?b < q" "?b mod 4 = 0"
    and slots: "list_all (\<lambda>slot. int (length slot) * 2 = q) (audioBufferPool c)"
    by (simp_all add: pools_ok_def)
  have room: "?b + 4 \<le> q" using b q by (intro quota_room)
  have inpool: "nat ?i < length (audioBufferPool c)" using i len by simp
  then have "?slot \<in> set (audioBufferPool c)" by simp
  with slots have slen: "int (length ?slot) * 2 = q" by (simp add: list_all_iff)
  have p: "Suc ?p < length ?slot" using slen room b by linarith
  let ?slot' = "take ?p ?slot @ l # r # drop (?p + 2) ?slot"
  have upd: "?slot[?p := l, ?p + 1 := r] = ?slot'"
    using update_pair[OF p] by simp
  have slen': "int (length ?slot') * 2 = q" using slen p by simp
  let ?pool' = "(audioBufferPool c)[nat ?i := ?slot']"
  have slots': "list_all (\<lambda>slot. int (length slot) * 2 = q) ?pool'"
  proof -
    have "set ?pool' \<subseteq> insert ?slot' (set (audioBufferPool c))"
      by (rule set_update_subset_insert)
    with slots slen' show ?thesis by (auto simp: list_all_iff)
  qed
  show ?thesis
  proof (cases "?b + 4 = q")
    case True
    let ?c' = "c\<lparr>audioBufferPool := ?pool', audioBufferPoolIndex := (?i + 1) mod 30,
                 audioBufferCurrentByte := 0\<rparr>"
    have "audioSampleCallback q c (l, r) = Some ?c'"
      using True i inpool b p upd by (simp add: audioSampleCallback_def pool_slots_def Let_def)
    moreover have "pools_ok q ?c'"
      using len vi q slots' by (simp add: pools_ok_def)
    ultimately show ?thesis using True by simp
  next
    case False
    let ?c' = "c\<lparr>audioBufferPool := ?pool', audioBufferCurrentByte := ?b + 4\<rparr>"
    have "audioSampleCallback q c (l, r) = Some ?c'"
      using False room i inpool b p upd
      by (simp add: audioSampleCallback_def pool_slots_def Let_def)
    moreover have "pools_ok q ?c'"
      using len i vi q b room False slots' by (simp add: pools_ok_def)
    ultimately show ?thesis using False by simp
  qed
qed


lemma interleaved_length: "length (interleaved xs) = 2 * length xs"
  by (induction xs rule: interleaved.induct) simp_all

lemma audio_batch_run:
  assumes "pools_ok q c"
    and "audioBufferCurrentByte c + 4 * int (length xs) \<le> q"
  shows "\<exists>c'. audioSampleBatchCallback q c xs = Some c' \<and> pools_ok q c'
    \<and> videoBufferPool c' = videoBufferPool c
    \<and> videoBufferPoolIndex c' = videoBufferPoolIndex c
    \<and> audioBufferPool c' = (audioBufferPool c)[nat (audioBufferPoolIndex c) :=
          take (nat (audioBufferCurrentByte c div 2)) (audioBufferPool c ! nat (audioBufferPoolIndex c))
          @ interleaved xs
          @ drop (nat (audioBufferCurrentByte c div 2) + 2 * length xs)
               (audioBufferPool c ! nat (audioBufferPoolIndex c))]
    \<and> (if xs \<noteq> [] \<and> audioBufferCurrentByte c + 4 * int (length xs) = q
         then audioBufferPoolIndex c' = (audioBufferPoolIndex c + 1) mod 30
              \<and> audioBufferCurrentByte c' = 0
         else audioBufferPoolIndex c' = audioBufferPoolIndex c
              \<and> audioBufferCurrentByte c' = audioBufferCurrentByte c + 4 * int (length xs))"
  using assms
proof (induction xs arbitrary: c)
  case Nil
  then show ?case by simp
next
  case (Cons x xs)
  obtain l r where x: "x = (l, r)" by (cases x)
  let ?i = "audioBufferPoolIndex c" and ?b = "audioBufferCurrentByte c"
  let ?slot = "audioBufferPool c ! nat ?i"
  let ?p = "nat (?b div 2)"
  let ?slot1 = "take ?p ?slot @ l # r # drop (?p + 2) ?slot"
  from Cons.prems(1) have len: "length (audioBufferPool c) = 30"
    and i: "0 \<le> ?i" "?i < 30" and b: "0 \<le> ?b" "?b < q"
    and slots: "list_all (\<lambda>slot. int (length slot) * 2 = q) (audioBufferPool c)"
    by (simp_all add: pools_ok_def)
  have inpool: "nat ?i < length (audioBufferPool c)" using i len by simp
  then have "?slot \<in> set (audioBufferPool c)" by simp
  with slots have slen: "int (length ?slot) * 2 = q" by (simp add: list_all_iff)
  have room: "?b + 4 \<le> q" using Cons.prems(2) by simp
  have p: "?p + 2 \<le> length ?slot" using slen room b by linarith
  from audio_sample_step[OF Cons.prems(1), of l r] obtain c1 where
    s1: "audioSampleCallback q c (l, r) = Some c1" and ok1: "pools_ok q c1" and
    vp1: "videoBufferPool c1 = videoBufferPool c" and
    vi1: "videoBufferPoolIndex c1 = videoBufferPoolIndex c" and
    ap1: "audioBufferPool c1 = (audioBufferPool c)[nat ?i := ?slot1]" and
    nx1: "if ?b + 4 = q
         then audioBufferPoolIndex c1 = (?i + 1) mod 30 \<and> audioBufferCurrentByte c1 = 0
         else audioBufferPoolIndex c1 = ?i \<and> audioBufferCurrentByte c1 = ?b + 4"
    by blast
  show ?case
  proof (cases "?b + 4 = q")
    case True
    with Cons.prems(2) have "4 * int (length (x # xs)) \<le> 4" by linarith
    then have xs: "xs = []" by simp
    have "audioSampleBatchCallback q c (x # xs) = Some c1"
      using s1 x xs by simp
    moreover have "interleaved (x # xs) = [l, r]" using x xs by simp
    ultimately show ?thesis
      using ok1 vp1 vi1 ap1 nx1 True xs by simp
  next
    case False
    with nx1 have i1: "audioBufferPoolIndex c1 = ?i" and b1: "audioBufferCurrentByte c1 = ?b + 4"
      by simp_all
    have room1: "audioBufferCurrentByte c1 + 4 * int (length xs) \<le> q"
      using b1 Cons.prems(2) by simp
    have p1: "nat (audioBufferCurrentByte c1 div 2) = ?p + 2"
      using b1 b by simp
    have sl1: "audioBufferPool c1 ! nat (audioBufferPoolIndex c1) = ?slot1"
      using ap1 i1 inpool by simp
    from Cons.IH[OF ok1 room1] obtain c' where
      r: "audioSampleBatchCallback q c1 xs = Some c'" and ok': "pools_ok q c'" and
      vp': "videoBufferPool c' = videoBufferPool c1" and
      vi': "videoBufferPoolIndex c' = videoBufferPoolIndex c1" and
      ap': "audioBufferPool c' = (audioBufferPool c1)[nat (audioBufferPoolIndex c1) :=
          take (nat (audioBufferCurrentByte c1 div 2))
            (audioBufferPool c1 ! nat (audioBufferPoolIndex c1))
          @ interleaved xs
          @ drop (nat (audioBufferCurrentByte c1 div 2) + 2 * length xs)
               (audioBufferPool c1 ! nat (audioBufferPoolIndex c1))]" and
      nx': "if xs \<noteq> [] \<and> audioBufferCurrentByte c1 + 4 * int (length xs) = q
         then audioBufferPoolIndex c' = (audioBufferPoolIndex c1 + 1) mod 30
              \<and> audioBufferCurrentByte c' = 0
         else audioBufferPoolIndex c' = audioBufferPoolIndex c1
              \<and> audioBufferCurrentByte c' = audioBufferCurrentByte c1 + 4 * int (length xs)"
      by blast
    have run: "audioSampleBatchCallback q c (x # xs) = Some c'"
      using s1 r x by simp
    have tk: "take (?p + 2) ?slot1 = take ?p ?slot @ [l, r]"
      by (rule take_past_pair[OF p])
    have dr: "drop (?p + 2 + 2 * length xs) ?slot1 = drop (?p + 2 + 2 * length xs) ?slot"
      by (rule drop_past_pair[OF p])
    have e1: "audioBufferPool c' = (audioBufferPool c1)[nat ?i :=
          take (?p + 2) ?slot1 @ interleaved xs @ drop (?p + 2 + 2 * length xs) ?slot1]"
      using ap'[unfolded sl1 p1, unfolded i1] .
    have e2: "audioBufferPool c' = (audioBufferPool c)[nat ?i :=
          (take ?p ?slot @ [l, r]) @ interleaved xs @ drop (?p + 2 + 2 * length xs) ?slot]"
      unfolding e1 tk dr ap1 by simp
    have e3: "?p + 2 + 2 * length xs = ?p + 2 * length (x # xs)" by simp
    have pool: "audioBufferPool c' = (audioBufferPool c)[nat ?i :=
          take ?p ?slot @ interleaved (x # xs) @ drop (?p + 2 * length (x # xs)) ?slot]"
      unfolding e2 e3 using x by simp
    have nxt: "if x # xs \<noteq> [] \<and> ?b + 4 * int (length (x # xs)) = q
         then audioBufferPoolIndex c' = (?i + 1) mod 30 \<and> audioBufferCurrentByte c' = 0
         else audioBufferPoolIndex c' = ?i
              \<and> audioBufferCurrentByte c' = ?b + 4 * int (length (x # xs))"
    proof (cases "xs = []")
      case True
      with nx' i1 b1 False show ?thesis by simp
    next
      case nonempty: False
      with nx' i1 b1 show ?thesis by (simp add: algebra_simps)
    qed
    from run ok' vp' vi' vp1 vi1 pool nxt show ?thesis by simp
  qed
qed

lemma audio_frame_step:
  assumes ok: "pools_ok q c" and b0: "audioBufferCurrentByte c = 0"
    and full: "4 * int (length xs) = q"
  shows "\<exists>c'. audioSampleBatchCallback q c xs = Some c' \<and> pools_ok q c'
    \<and> audioBufferCurrentByte c' = 0
    \<and> audioBufferPoolIndex c' = (audioBufferPoolIndex c + 1) mod 30
    \<and> audioBufferPool c' = (audioBufferPool c)[nat (audioBufferPoolIndex c) := interleaved xs]"
proof -
  let ?i = "audioBufferPoolIndex c"
  let ?slot = "audioBufferPool c ! nat ?i"
  from ok have len: "length (audioBufferPool c) = 30"
    and i: "0 \<le> ?i" "?i < 30" and q: "0 < q"
    and slots: "list_all (\<lambda>slot. int (length slot) * 2 = q) (audioBufferPool c)"
    by (simp_all add: pools_ok_def)
  have "?slot \<in> set (audioBufferPool c)" using i len by simp
  with slots have "int (length ?slot) * 2 = q" by (simp add: list_all_iff)
  with full have slen: "length ?slot = 2 * length xs" by linarith
  have ne: "xs \<noteq> []" using full q by auto
  have room: "audioBufferCurrentByte c + 4 * int (length xs) \<le> q" using b0 full by simp
  from audio_batch_run[OF ok room] ne b0 full slen show ?thesis
    by auto
qed

lemma audio_frames_run:
  assumes "pools_ok q c" and "audioBufferCurrentByte c = 0"
    and "\<forall>f \<in> set fs. 4 * int (length f) = q"
  shows "\<exists>c'. audio_frames q c fs = Some c' \<and> pools_ok q c'
    \<and> audioBufferCurrentByte c' = 0
    \<and> audioBufferPoolIndex c' = (audioBufferPoolIndex c + int (length fs)) mod 30
    \<and> (fs \<noteq> [] \<longrightarrow>
         audioBufferPool c' ! nat ((audioBufferPoolIndex c + int (length fs) - 1) mod 30)
           = interleaved (last fs))"
  using assms
proof (induction fs arbitrary: c)
  case Nil
  then show ?case by (simp add: pools_ok_def)
next
  case (Cons f fs)
  have full: "4 * int (length f) = q" using Cons.prems(3) by simp
  from audio_frame_step[OF Cons.prems(1,2) full] obtain c1 where
    s1: "audioSampleBatchCallback q c f = Some c1" and ok1: "pools_ok q c1" and
    b1: "audioBufferCurrentByte c1 = 0" and
    i1: "audioBufferPoolIndex c1 = (audioBufferPoolIndex c + 1) mod 30" and
    p1: "audioBufferPool c1 = (audioBufferPool c)[nat (audioBufferPoolIndex c) := interleaved f]"
    by blast
  have rest: "\<forall>f \<in> set fs. 4 * int (length f) = q" using Cons.prems(3) by simp
  from Cons.IH[OF ok1 b1 rest] obtain c' where
    r: "audio_frames q c1 fs = Some c'" and ok': "pools_ok q c'" and
    b': "audioBufferCurrentByte c' = 0" and
    i': "audioBufferPoolIndex c' = (audioBufferPoolIndex c1 + int (length fs)) mod 30" and
    l': "fs \<noteq> [] \<longrightarrow>
         audioBufferPool c' ! nat ((audioBufferPoolIndex c1 + int (length fs) - 1) mod 30)
           = interleaved (last fs)"
    by blast
  have run: "audio_frames q c (f # fs) = Some c'" using s1 r by simp
  have idx: "audioBufferPoolIndex c' = (audioBufferPoolIndex c + int (length (f # fs))) mod 30"
    using i' i1 by (simp add: mod_simps add.assoc)
  have lst: "audioBufferPool c' ! nat ((audioBufferPoolIndex c + int (length (f # fs)) - 1) mod 30)
      = interleaved (last (f # fs))"
  proof (cases "fs = []")
    case True
    with r have "c' = c1" by simp
    moreover have "0 \<le> audioBufferPoolIndex c" "audioBufferPoolIndex c < 30"
      "length (audioBufferPool c) = 30"
      using Cons.prems(1) by (simp_all add: pools_ok_def)
    ultimately show ?thesis using True p1 by simp
  next
    case False
    have "(audioBufferPoolIndex c1 + int (length fs) - 1) mod 30
        = (audioBufferPoolIndex c + int (length (f # fs)) - 1) mod 30"
      unfolding i1 using ring_shift[of "audioBufferPoolIndex c" "int (length fs)"]
      by (simp add: algebra_simps)
    with l' False show ?thesis by simp
  qed
  from run ok' b' idx lst show ?case by blast
qed


text \<open>
  C6. Each pool has 30 slots. Every video refresh and every audio sample succeeds and
  keeps the index inside the pool; a video refresh, and the audio sample that fills a
  slot, advance the index by one modulo 30, so any run of frames leaves it at the start
  plus the number of frames, modulo 30. After 31 frames from index 0 the index is 1 and
  slot 0 holds the 31st frame.
\<close>

theorem pools_cyclic:
  assumes "pools_ok quota c"
  shows "pool_slots = 30
    \<and> length (audioBufferPool c) = 30 \<and> length (videoBufferPool c) = 30
    \<and> (\<exists>c'. videoRefreshCallback c f = Some c' \<and> pools_ok quota c'
          \<and> videoBufferPoolIndex c' = (videoBufferPoolIndex c + 1) mod 30
          \<and> 0 \<le> videoBufferPoolIndex c' \<and> videoBufferPoolIndex c' < 30)
    \<and> (\<exists>c'. audioSampleCallback quota c x = Some c' \<and> pools_ok quota c'
          \<and> audioBufferPoolIndex c' =
              (if audioBufferCurrentByte c + 4 = quota
               then (audioBufferPoolIndex c + 1) mod 30 else audioBufferPoolIndex c)
          \<and> 0 \<le> audioBufferPoolIndex c' \<and> audioBufferPoolIndex c' < 30)
    \<and> (\<exists>c'. video_frames c vfs = Some c' \<and> pools_ok quota c'
          \<and> videoBufferPoolIndex c' = (videoBufferPoolIndex c + int (length vfs)) mod 30)
    \<and> (audioBufferCurrentByte c = 0 \<and> (\<forall>f \<in> set afs. 4 * int (length f) = quota) \<longrightarrow>
         (\<exists>c'. audio_frames quota c afs = Some c' \<and> pools_ok quota c'
            \<and> audioBufferPoolIndex c' = (audioBufferPoolIndex c + int (length afs)) mod 30))
    \<and> (length vfs = 31 \<and> videoBufferPoolIndex c = 0 \<longrightarrow>
         (\<exists>c'. video_frames c vfs = Some c' \<and> videoBufferPoolIndex c' = 1
            \<and> videoBufferPool c' ! 0 = vfs ! 30))
    \<and> (length afs = 31 \<and> audioBufferPoolIndex c = 0 \<and> audioBufferCurrentByte c = 0
         \<and> (\<forall>f \<in> set afs. 4 * int (length f) = quota) \<longrightarrow>
         (\<exists>c'. audio_frames quota c afs = Some c' \<and> audioBufferPoolIndex c' = 1
            \<and> audioBufferPool c' ! 0 = interleaved (afs ! 30)))"
proof -
  have slots: "pool_slots = 30" by (simp add: pool_slots_def)
  have len: "length (audioBufferPool c) = 30 \<and> length (videoBufferPool c) = 30"
    using assms by (simp add: pools_ok_def)
  have v1: "\<exists>c'. videoRefreshCallback c f = Some c' \<and> pools_ok quota c'
          \<and> videoBufferPoolIndex c' = (videoBufferPoolIndex c + 1) mod 30
          \<and> 0 \<le> videoBufferPoolIndex c' \<and> videoBufferPoolIndex c' < 30"
  proof -
    from video_refresh_step[OF assms, of f] obtain c' where
      "videoRefreshCallback c f = Some c'" "pools_ok quota c'"
      "videoBufferPoolIndex c' = (videoBufferPoolIndex c + 1) mod 30"
      by blast
    moreover from this(2) have "0 \<le> videoBufferPoolIndex c'" "videoBufferPoolIndex c' < 30"
      by (simp_all add: pools_ok_def)
    ultimately show ?thesis by blast
  qed
  have a1: "\<exists>c'. audioSampleCallback quota c x = Some c' \<and> pools_ok quota c'
          \<and> audioBufferPoolIndex c' =
              (if audioBufferCurrentByte c + 4 = quota
               then (audioBufferPoolIndex c + 1) mod 30 else audioBufferPoolIndex c)
          \<and> 0 \<le> audioBufferPoolIndex c' \<and> audioBufferPoolIndex c' < 30"
  proof -
    obtain l r where x: "x = (l, r)" by (cases x)
    from audio_sample_step[OF assms, of l r] obtain c' where
      st: "audioSampleCallback quota c (l, r) = Some c'" and ok: "pools_ok quota c'" and
      nx: "if audioBufferCurrentByte c + 4 = quota
         then audioBufferPoolIndex c' = (audioBufferPoolIndex c + 1) mod 30
              \<and> audioBufferCurrentByte c' = 0
         else audioBufferPoolIndex c' = audioBufferPoolIndex c
              \<and> audioBufferCurrentByte c' = audioBufferCurrentByte c + 4"
      by blast
    from nx have "audioBufferPoolIndex c' =
              (if audioBufferCurrentByte c + 4 = quota
               then (audioBufferPoolIndex c + 1) mod 30 else audioBufferPoolIndex c)"
      by (simp split: if_splits)
    moreover from ok have "0 \<le> audioBufferPoolIndex c'" "audioBufferPoolIndex c' < 30"
      by (simp_all add: pools_ok_def)
    ultimately show ?thesis using st ok x by blast
  qed
  have vn: "\<exists>c'. video_frames c vfs = Some c' \<and> pools_ok quota c'
          \<and> videoBufferPoolIndex c' = (videoBufferPoolIndex c + int (length vfs)) mod 30"
    using video_frames_run[OF assms, of vfs] by blast
  have an: "audioBufferCurrentByte c = 0 \<and> (\<forall>f \<in> set afs. 4 * int (length f) = quota) \<longrightarrow>
         (\<exists>c'. audio_frames quota c afs = Some c' \<and> pools_ok quota c'
            \<and> audioBufferPoolIndex c' = (audioBufferPoolIndex c + int (length afs)) mod 30)"
    using audio_frames_run[OF assms, of afs] by blast
  have v31: "length vfs = 31 \<and> videoBufferPoolIndex c = 0 \<longrightarrow>
         (\<exists>c'. video_frames c vfs = Some c' \<and> videoBufferPoolIndex c' = 1
            \<and> videoBufferPool c' ! 0 = vfs ! 30)"
  proof
    assume h: "length vfs = 31 \<and> videoBufferPoolIndex c = 0"
    then have ne: "vfs \<noteq> []" by auto
    from video_frames_run[OF assms, of vfs] obtain c' where
      r: "video_frames c vfs = Some c'" and
      i: "videoBufferPoolIndex c' = (videoBufferPoolIndex c + int (length vfs)) mod 30" and
      l: "vfs \<noteq> [] \<longrightarrow>
         videoBufferPool c' ! nat ((videoBufferPoolIndex c + int (length vfs) - 1) mod 30) = last vfs"
      by blast
    have "last vfs = vfs ! 30" using h ne by (simp add: last_conv_nth)
    with r i l h ne show "\<exists>c'. video_frames c vfs = Some c' \<and> videoBufferPoolIndex c' = 1
            \<and> videoBufferPool c' ! 0 = vfs ! 30"
      by simp
  qed
  have a31: "length afs = 31 \<and> audioBufferPoolIndex c = 0 \<and> audioBufferCurrentByte c = 0
         \<and> (\<forall>f \<in> set afs. 4 * int (length f) = quota) \<longrightarrow>
         (\<exists>c'. audio_frames quota c afs = Some c' \<and> audioBufferPoolIndex c' = 1
            \<and> audioBufferPool c' ! 0 = interleaved (afs ! 30))"
  proof
    assume h: "length afs = 31 \<and> audioBufferPoolIndex c = 0 \<and> audioBufferCurrentByte c = 0
         \<and> (\<forall>f \<in> set afs. 4 * int (length f) = quota)"
    then have ne: "afs \<noteq> []" by auto
    from h have b0: "audioBufferCurrentByte c = 0"
      and all: "\<forall>f \<in> set afs. 4 * int (length f) = quota" by simp_all
    from audio_frames_run[OF assms b0 all] obtain c' where
      r: "audio_frames quota c afs = Some c'" and
      i: "audioBufferPoolIndex c' = (audioBufferPoolIndex c + int (length afs)) mod 30" and
      l: "afs \<noteq> [] \<longrightarrow>
         audioBufferPool c' ! nat ((audioBufferPoolIndex c + int (length afs) - 1) mod 30)
           = interleaved (last afs)"
      by blast
    have "last afs = afs ! 30" using h ne by (simp add: last_conv_nth)
    with r i l h ne show "\<exists>c'. audio_frames quota c afs = Some c' \<and> audioBufferPoolIndex c' = 1
            \<and> audioBufferPool c' ! 0 = interleaved (afs ! 30)"
      by simp
  qed
  from slots len v1 a1 vn an v31 a31 show ?thesis by blast
qed

theorem pools_cyclic_witness:
  "pools_ok 4 \<lparr>audioBufferPool = replicate 30 [0, 0], audioBufferPoolIndex = 0,
       audioBufferCurrentByte = 0, videoBufferPool = replicate 30 [],
       videoBufferPoolIndex = 0\<rparr>
   \<and> (\<exists>c'. video_frames \<lparr>audioBufferPool = replicate 30 [0, 0], audioBufferPoolIndex = 0,
            audioBufferCurrentByte = 0, videoBufferPool = replicate 30 [],
            videoBufferPoolIndex = 0\<rparr>
          (map (\<lambda>n. [of_nat n]) [1..<32]) = Some c'
        \<and> videoBufferPoolIndex c' = 1 \<and> videoBufferPool c' ! 0 = [31])
   \<and> (\<exists>c'. audio_frames 4 \<lparr>audioBufferPool = replicate 30 [0, 0], audioBufferPoolIndex = 0,
            audioBufferCurrentByte = 0, videoBufferPool = replicate 30 [],
            videoBufferPoolIndex = 0\<rparr>
          (map (\<lambda>n. [(of_nat n, of_nat n)]) [1..<32]) = Some c'
        \<and> audioBufferPoolIndex c' = 1 \<and> audioBufferPool c' ! 0 = [31, 31])"
proof -
  let ?c = "\<lparr>audioBufferPool = replicate 30 [0, 0], audioBufferPoolIndex = 0,
       audioBufferCurrentByte = 0, videoBufferPool = replicate 30 [],
       videoBufferPoolIndex = 0\<rparr>"
  let ?vfs = "map (\<lambda>n. [of_nat n :: 8 word]) [1..<32]"
  let ?afs = "map (\<lambda>n. [(of_nat n :: 16 word, of_nat n :: 16 word)]) [1..<32]"
  have ok: "pools_ok 4 ?c"
    by (simp add: pools_ok_def list_all_iff)
  have lv: "length ?vfs = 31" and la: "length ?afs = 31" by simp_all
  have full: "\<forall>f \<in> set ?afs. 4 * int (length f) = 4" by auto
  have v30: "?vfs ! 30 = [31]" and a30: "?afs ! 30 = [(31, 31)]"
    by (simp_all add: nth_map nth_upt)
  from pools_cyclic[OF ok, of _ _ ?vfs ?afs] lv la full v30 a30 ok show ?thesis
    by simp
qed

end
